theory Spec2Isabelle
  imports Complex_Main
begin

section \<open>Path simplification: \<open>simplifyContour\<close> and \<open>pointLineDistance\<close> (svgConverter.js)\<close>

text \<open>
  A contour is an array of points \<open>{x, y}\<close>. The contour tracer produces integer grid
  coordinates, so a point is a pair of integers (first component \<open>x\<close>, second \<open>y\<close>).
  JavaScript numbers are modelled by the reals: distances are computed exactly.
\<close>

type_synonym point = "int \<times> int"

definition pointLineDistance :: "point \<Rightarrow> point \<Rightarrow> point \<Rightarrow> real" where
  "pointLineDistance point lineStart lineEnd =
     (let dx = real_of_int (fst lineEnd - fst lineStart);
          dy = real_of_int (snd lineEnd - snd lineStart)
      in if dx = 0 \<and> dy = 0 then
           (let distX = real_of_int (fst point - fst lineStart);
                distY = real_of_int (snd point - snd lineStart)
            in sqrt (distX * distX + distY * distY))
         else
           (let t = (real_of_int (fst point - fst lineStart) * dx
                     + real_of_int (snd point - snd lineStart) * dy) / (dx * dx + dy * dy)
            in if t < 0 then
                 (let distX = real_of_int (fst point - fst lineStart);
                      distY = real_of_int (snd point - snd lineStart)
                  in sqrt (distX * distX + distY * distY))
               else if t > 1 then
                 (let distX = real_of_int (fst point - fst lineEnd);
                      distY = real_of_int (snd point - snd lineEnd)
                  in sqrt (distX * distX + distY * distY))
               else
                 (let projX = real_of_int (fst lineStart) + t * dx;
                      projY = real_of_int (snd lineStart) + t * dy;
                      distX = real_of_int (fst point) - projX;
                      distY = real_of_int (snd point) - projY
                  in sqrt (distX * distX + distY * distY))))"

text \<open>
  The search loop of \<open>simplifyContour\<close>: \<open>for (i = 1; i < contour.length - 1; i++)\<close>,
  carrying \<open>(maxDist, index)\<close>, which start at \<open>(0, 0)\<close>. The update happens only on a
  strictly greater distance, so the first maximum wins.
\<close>

definition farthestStep :: "point list \<Rightarrow> nat \<Rightarrow> real \<times> nat \<Rightarrow> real \<times> nat" where
  "farthestStep contour i st =
     (let dist = pointLineDistance (contour ! i) (contour ! 0) (contour ! (length contour - 1))
      in if dist > fst st then (dist, i) else st)"

definition farthest :: "point list \<Rightarrow> real \<times> nat" where
  "farthest contour = fold (farthestStep contour) [1..<length contour - 1] (0, 0)"

lemma farthestStep_index:
  "snd (farthestStep contour i st) = snd st \<or> snd (farthestStep contour i st) = i"
  by (simp add: farthestStep_def Let_def)

lemma fold_farthestStep_index:
  "snd (fold (farthestStep contour) js st) \<in> insert (snd st) (set js)"
proof (induction js arbitrary: st)
  case Nil
  show ?case by simp
next
  case (Cons j js)
  have "snd (fold (farthestStep contour) js (farthestStep contour j st))
          \<in> insert (snd (farthestStep contour j st)) (set js)"
    by (rule Cons.IH)
  with farthestStep_index [of contour j st] show ?case by auto
qed

lemma farthest_index:
  "snd (farthest contour) \<noteq> 0 \<Longrightarrow>
     1 \<le> snd (farthest contour) \<and> snd (farthest contour) < length contour - 1"
  using fold_farthestStep_index [of contour "[1..<length contour - 1]" "(0, 0)"]
  by (auto simp: farthest_def)

text \<open>
  \<open>simplifyContour\<close> itself. \<open>contour.slice(0, index + 1)\<close> is \<open>take (index + 1)\<close>,
  \<open>contour.slice(index)\<close> is \<open>drop index\<close> and \<open>part1.slice(0, -1)\<close> is \<open>butlast\<close>.
  The result is an option: when \<open>maxDist > tolerance\<close> holds with \<open>index = 0\<close> (which needs
  a negative tolerance, \<open>maxDist\<close> still being \<open>0\<close>), the second recursive call receives
  \<open>contour.slice(0)\<close>, the whole contour again, and the recursion never comes back; that
  case is \<open>None\<close>.
\<close>

function simplifyContour :: "point list \<Rightarrow> real \<Rightarrow> point list option" where
  "simplifyContour contour tolerance =
     (if length contour \<le> 2 then Some contour
      else if fst (farthest contour) > tolerance then
        (if snd (farthest contour) = 0 then None
         else
           (case simplifyContour (take (snd (farthest contour) + 1) contour) tolerance of
              None \<Rightarrow> None
            | Some part1 \<Rightarrow>
                (case simplifyContour (drop (snd (farthest contour)) contour) tolerance of
                   None \<Rightarrow> None
                 | Some part2 \<Rightarrow> Some (butlast part1 @ part2))))
      else Some [contour ! 0, contour ! (length contour - 1)])"
  by pat_completeness auto
termination
proof (relation "measure (\<lambda>(contour, tolerance). length contour)")
  show "wf (measure (\<lambda>(contour, tolerance). length contour))" by simp
next
  fix contour :: "point list" and tolerance :: real
  assume "\<not> length contour \<le> 2" and "snd (farthest contour) \<noteq> 0"
  with farthest_index [of contour]
  show "((take (snd (farthest contour) + 1) contour, tolerance), (contour, tolerance))
          \<in> measure (\<lambda>(contour, tolerance). length contour)"
    by simp
next
  fix contour :: "point list" and tolerance :: real and part1 :: "point list"
  assume "\<not> length contour \<le> 2" and "snd (farthest contour) \<noteq> 0"
  with farthest_index [of contour]
  show "((drop (snd (farthest contour)) contour, tolerance), (contour, tolerance))
          \<in> measure (\<lambda>(contour, tolerance). length contour)"
    by simp
qed

declare simplifyContour.simps [simp del]

text \<open>
  A contour has no flat run when every run of at least three consecutive points has an
  interior point at positive distance from the segment joining the ends of the run.
\<close>

definition noFlatRun :: "point list \<Rightarrow> bool" where
  "noFlatRun c \<longleftrightarrow>
     (\<forall>j < length c. \<forall>i < j. i + 2 \<le> j \<longrightarrow>
        (\<exists>k \<in> {i + 1..<j}. 0 < pointLineDistance (c ! k) (c ! i) (c ! j)))"


section \<open>Bitmap preprocessing: \<open>preprocessBitmap\<close> and \<open>preprocessBitmapAdvanced\<close> (svgConverter.js)\<close>

text \<open>
  \<open>ImageData\<close> has the fields \<open>width\<close>, \<open>height\<close> and \<open>data\<close>, a byte array holding
  \<open>R, G, B, A\<close> for each pixel in row-major order. The conversion options the two functions
  read are \<open>threshold\<close> and \<open>detailLevel\<close>; a field that is \<open>undefined\<close> (or \<open>NaN\<close>) is
  \<open>None\<close>. The record fields carry a prefix, the local constants of the source keep
  their names.
\<close>

record imageData =
  img_width :: nat
  img_height :: nat
  img_data :: "nat list"

record options =
  opt_threshold :: "real option"
  opt_detailLevel :: "int option"

text \<open>
  \<open>v || d\<close> on numbers: \<open>undefined\<close>, \<open>NaN\<close> and \<open>0\<close> are falsy and give the default.
\<close>

definition orDefault :: "'a::zero option \<Rightarrow> 'a \<Rightarrow> 'a" where
  "orDefault v d = (case v of None \<Rightarrow> d | Some n \<Rightarrow> if n = 0 then d else n)"

text \<open>
  Reading a typed array: an index past the end gives \<open>undefined\<close>, here \<open>None\<close>.
  Arithmetic on \<open>undefined\<close> gives \<open>NaN\<close>, every comparison with \<open>NaN\<close> is false, and
  \<open>NaN\<close> stored into a \<open>Uint8Array\<close> is \<open>0\<close>.
\<close>

definition rd :: "nat list \<Rightarrow> nat \<Rightarrow> nat option" where
  "rd xs i = (if i < length xs then Some (xs ! i) else None)"

text \<open>The body of the pixel loop of \<open>preprocessBitmap\<close>; \<open>i\<close> is \<open>(y * width + x) * 4\<close>.\<close>

definition simplePixel :: "nat list \<Rightarrow> real \<Rightarrow> nat \<Rightarrow> nat" where
  "simplePixel data threshold i =
     (let r = rd data i; g = rd data (i + 1); b = rd data (i + 2); a = rd data (i + 3)
      in if a = Some 0 then 0
         else (case (r, g, b) of
                 (Some r, Some g, Some b) \<Rightarrow>
                   (let gray = 0.299 * real r + 0.587 * real g + 0.114 * real b
                    in if gray < threshold then 1 else 0)
               | _ \<Rightarrow> 0))"

definition preprocessBitmap :: "imageData \<Rightarrow> options \<Rightarrow> nat list" where
  "preprocessBitmap imageData options =
     (let width = img_width imageData; height = img_height imageData;
          data = img_data imageData;
          threshold = orDefault (opt_threshold options) 128;
          bitmap = replicate (width * height) 0
      in fold (\<lambda>y bitmap.
                 fold (\<lambda>x bitmap.
                         bitmap[y * width + x := simplePixel data threshold ((y * width + x) * 4)])
                      [0..<width] bitmap)
              [0..<height] bitmap)"

text \<open>
  Step 1 of \<open>preprocessBitmapAdvanced\<close>: the grey value of a pixel, \<open>255\<close> for a fully
  transparent one. \<open>Math.round\<close> is \<open>\<lfloor>v + 1/2\<rfloor>\<close>, and the store into the \<open>Uint8Array\<close>
  keeps the value modulo \<open>256\<close>.
\<close>

definition grayPixel :: "nat list \<Rightarrow> nat \<Rightarrow> nat" where
  "grayPixel data i =
     (if rd data (i + 3) = Some 0 then 255
      else (case (rd data i, rd data (i + 1), rd data (i + 2)) of
              (Some r, Some g, Some b) \<Rightarrow>
                nat \<lfloor>0.299 * real r + 0.587 * real g + 0.114 * real b + 1 / 2\<rfloor> mod 256
            | _ \<Rightarrow> 0))"

definition grayscaleOf :: "nat \<Rightarrow> nat \<Rightarrow> nat list \<Rightarrow> nat list" where
  "grayscaleOf width height data =
     fold (\<lambda>y grayscale.
             fold (\<lambda>x grayscale. grayscale[y * width + x := grayPixel data ((y * width + x) * 4)])
                  [0..<width] grayscale)
          [0..<height] (replicate (width * height) 0)"

text \<open>
  Step 2: the two window loops \<open>dy, dx = -blockSize .. blockSize\<close> carry \<open>(sum, count)\<close>;
  only in-bounds neighbours are counted. With \<open>count = 0\<close> the local average is \<open>0 / 0\<close>,
  that is \<open>NaN\<close>, and the comparison is false.
\<close>

definition windowStep ::
    "nat list \<Rightarrow> nat \<Rightarrow> nat \<Rightarrow> nat \<Rightarrow> nat \<Rightarrow> int \<Rightarrow> int \<Rightarrow> nat \<times> nat \<Rightarrow> nat \<times> nat" where
  "windowStep grayscale width height x y dy dx acc =
     (let sum = fst acc; count = snd acc; nx = int x + dx; ny = int y + dy
      in if nx \<ge> 0 \<and> nx < int width \<and> ny \<ge> 0 \<and> ny < int height
         then (sum + grayscale ! nat (ny * int width + nx), count + 1)
         else (sum, count))"

definition windowSum :: "nat list \<Rightarrow> nat \<Rightarrow> nat \<Rightarrow> int \<Rightarrow> nat \<Rightarrow> nat \<Rightarrow> nat \<times> nat" where
  "windowSum grayscale width height blockSize x y =
     fold (\<lambda>dy acc. fold (windowStep grayscale width height x y dy) [- blockSize..blockSize] acc)
          [- blockSize..blockSize] (0, 0)"

definition adaptivePixel :: "nat list \<Rightarrow> nat \<Rightarrow> nat \<Rightarrow> int \<Rightarrow> nat \<Rightarrow> nat \<Rightarrow> nat" where
  "adaptivePixel grayscale width height detailLevel x y =
     (let blockSize = 11 - detailLevel;
          (sum, count) = windowSum grayscale width height blockSize x y;
          pixel = grayscale ! (y * width + x)
      in if count = 0 then 0
         else if real pixel < real sum / real count - real_of_int (10 - detailLevel) then 1 else 0)"

definition preprocessBitmapAdvanced :: "imageData \<Rightarrow> options \<Rightarrow> nat list" where
  "preprocessBitmapAdvanced imageData options =
     (let width = img_width imageData; height = img_height imageData;
          data = img_data imageData;
          detailLevel = orDefault (opt_detailLevel options) 5;
          bitmap = replicate (width * height) 0;
          grayscale = grayscaleOf width height data
      in fold (\<lambda>y bitmap.
                 fold (\<lambda>x bitmap.
                         bitmap[y * width + x := adaptivePixel grayscale width height detailLevel x y])
                      [0..<width] bitmap)
              [0..<height] bitmap)"

text \<open>The pixels of a \<open>width \<times> height\<close> grid in the order of the two nested loops.\<close>

definition scanOrder :: "nat \<Rightarrow> nat \<Rightarrow> (nat \<times> nat) list" where
  "scanOrder width height = concat (map (\<lambda>y. map (\<lambda>x. (x, y)) [0..<width]) [0..<height])"


section \<open>Contour tracing: \<open>findContours\<close> (svgConverter.js)\<close>

text \<open>
  The bitmap is a \<open>Uint8Array\<close> of \<open>width * height\<close> cells in row-major order, \<open>visited\<close>
  a second one of the same length. The direction tables \<open>dx\<close> and \<open>dy\<close> (right, down,
  left, up) are \<open>dirDx\<close> and \<open>dirDy\<close> here.
\<close>

definition dirDx :: "int list" where
  "dirDx = [1, 0, - 1, 0]"

definition dirDy :: "int list" where
  "dirDy = [0, 1, 0, - 1]"

text \<open>
  The test of the inner loop:
  \<open>nx >= 0 && nx < width && ny >= 0 && ny < height && bitmap[ny * width + nx] === 1\<close>.
\<close>

definition isForeground :: "nat list \<Rightarrow> nat \<Rightarrow> nat \<Rightarrow> int \<Rightarrow> int \<Rightarrow> bool" where
  "isForeground bitmap width height nx ny \<longleftrightarrow>
     nx \<ge> 0 \<and> nx < int width \<and> ny \<ge> 0 \<and> ny < int height \<and>
     rd bitmap (nat (ny * int width + nx)) = Some 1"

text \<open>
  The loop \<open>for (i = 0; i < 4; i++)\<close> that looks for the next pixel; the last argument
  counts the iterations that remain. It returns \<open>(found, cx, cy, dir)\<close> as they are
  after the loop: on success the position moves and \<open>dir\<close> is the direction taken, on
  failure \<open>dir\<close> has been turned four times and is back at its first value.
\<close>

fun tryDirections ::
    "nat list \<Rightarrow> nat \<Rightarrow> nat \<Rightarrow> int \<Rightarrow> int \<Rightarrow> nat \<Rightarrow> nat \<Rightarrow> bool \<times> int \<times> int \<times> nat" where
  "tryDirections bitmap width height cx cy dir 0 = (False, cx, cy, dir)"
| "tryDirections bitmap width height cx cy dir (Suc n) =
     (let nx = cx + dirDx ! dir; ny = cy + dirDy ! dir
      in if isForeground bitmap width height nx ny then (True, nx, ny, dir)
         else tryDirections bitmap width height cx cy ((dir + 1) mod 4) n)"

text \<open>
  The loop \<open>while (count < maxSteps)\<close> on the state \<open>(cx, cy, dir, count, visited, contour)\<close>.
  It returns \<open>visited\<close>, \<open>contour\<close> and \<open>count\<close> as they are when the loop is left: by one
  of the two \<open>break\<close> conditions, with \<open>count < maxSteps\<close>, or because the step budget is
  used up, with \<open>count = maxSteps\<close>. \<open>contour[0]\<close> is read after the push, so it exists.
\<close>

function traceLoop ::
    "nat list \<Rightarrow> nat \<Rightarrow> nat \<Rightarrow> int \<times> int \<times> nat \<times> nat \<times> nat list \<times> point list
       \<Rightarrow> nat list \<times> point list \<times> nat" where
  "traceLoop bitmap width height (cx, cy, dir, count, visited, contour) =
     (if count < width * height then
        (case tryDirections bitmap width height cx cy dir 4 of
           (found, cx', cy', dir') \<Rightarrow>
             if \<not> found \<or> (length (contour @ [(cx, cy)]) > 2 \<and>
                   cx' = fst ((contour @ [(cx, cy)]) ! 0) \<and> cy' = snd ((contour @ [(cx, cy)]) ! 0))
             then (visited[nat (cy * int width + cx) := 1], contour @ [(cx, cy)], count)
             else traceLoop bitmap width height
                    (cx', cy', (dir' + 3) mod 4, count + 1,
                     visited[nat (cy * int width + cx) := 1], contour @ [(cx, cy)]))
      else (visited, contour, count))"
  by pat_completeness auto
termination
  by (relation "measure (\<lambda>(bitmap, width, height, cx, cy, dir, count, visited, contour).
        width * height - count)") auto

declare traceLoop.simps [simp del]

text \<open>
  The body of the two scanning loops at the pixel \<open>(x, y)\<close>, on the state
  \<open>(contours, visited)\<close>: an unvisited foreground pixel starts a trace, and the traced
  contour is kept when it has more than two points.
\<close>

definition scanStep ::
    "nat list \<Rightarrow> nat \<Rightarrow> nat \<Rightarrow> nat \<times> nat \<Rightarrow> point list list \<times> nat list
       \<Rightarrow> point list list \<times> nat list" where
  "scanStep bitmap width height p st =
     (let x = fst p; y = snd p; contours = fst st; visited = snd st; idx = y * width + x
      in if rd bitmap idx = Some 1 \<and> rd visited idx = Some 0 then
           (case traceLoop bitmap width height (int x, int y, 0, 0, visited, []) of
              (visited', contour, count) \<Rightarrow>
                (if length contour > 2 then contours @ [contour] else contours, visited'))
         else (contours, visited))"

definition findContours :: "nat list \<Rightarrow> nat \<Rightarrow> nat \<Rightarrow> point list list" where
  "findContours bitmap width height =
     fst (fold (\<lambda>y st. fold (\<lambda>x st. scanStep bitmap width height (x, y) st) [0..<width] st)
            [0..<height] ([], replicate (length bitmap) 0))"

text \<open>
  An occupancy grid whose foreground is exactly one filled axis-aligned rectangle with
  top-left corner \<open>(x0, y0)\<close>, \<open>W\<close> columns and \<open>H\<close> rows.
\<close>

definition filledRectangle :: "nat list \<Rightarrow> nat \<Rightarrow> nat \<Rightarrow> nat \<Rightarrow> nat \<Rightarrow> nat \<Rightarrow> nat \<Rightarrow> bool" where
  "filledRectangle bitmap width height x0 y0 W H \<longleftrightarrow>
     length bitmap = width * height \<and> x0 + W \<le> width \<and> y0 + H \<le> height \<and>
     (\<forall>y < height. \<forall>x < width.
        bitmap ! (y * width + x) = (if x0 \<le> x \<and> x < x0 + W \<and> y0 \<le> y \<and> y < y0 + H then 1 else 0))"

text \<open>
  The cells a trace marks in \<open>visited\<close>, and the boundary of the rectangle as the trace
  walks it from the top-left corner: along the top row to the right, down the right
  column, back along the bottom row, and up the left column.
\<close>

definition markVisited :: "nat \<Rightarrow> point list \<Rightarrow> nat list \<Rightarrow> nat list" where
  "markVisited width ps visited = fold (\<lambda>p v. v[nat (snd p * int width + fst p) := 1]) ps visited"

definition rectanglePerimeter :: "nat \<Rightarrow> nat \<Rightarrow> nat \<Rightarrow> nat \<Rightarrow> point list" where
  "rectanglePerimeter x0 y0 W H =
     map (\<lambda>i. (int x0 + int i, int y0)) [0..<W - 1]
     @ map (\<lambda>j. (int x0 + int W - 1, int y0 + int j)) [0..<H - 1]
     @ map (\<lambda>i. (int x0 + int W - 1 - int i, int y0 + int H - 1)) [0..<W - 1]
     @ map (\<lambda>j. (int x0, int y0 + int H - 1 - int j)) [0..<H - 1]"


section \<open>Path output: \<open>contourToSvgPath\<close> (svgConverter.js)\<close>

text \<open>
  The function builds the path data string piece by piece. The model keeps the sequence
  of pieces: \<open>M x,y\<close> is \<open>MoveTo\<close>, \<open>L x,y\<close> is \<open>LineTo\<close>, \<open>Q cx,cy x,y\<close> is \<open>QuadTo\<close>,
  \<open>C c1x,c1y c2x,c2y x,y\<close> (emitted by the spline path of the advanced mode only) is
  \<open>CubicTo\<close>, and \<open>Z\<close> is \<open>ClosePath\<close>. The empty string is the empty sequence.
\<close>

datatype pathCommand =
    MoveTo real real
  | LineTo real real
  | QuadTo real real real real
  | CubicTo real real real real real real
  | ClosePath

fun isCurve :: "pathCommand \<Rightarrow> bool" where
  "isCurve (QuadTo cx cy x y) = True"
| "isCurve (CubicTo c1x c1y c2x c2y x y) = True"
| "isCurve cmd = False"

text \<open>
  One round of the loop of the smoothing branch, for the vertex \<open>i\<close>: a plain line when
  an adjacent edge is shorter than \<open>1\<close>, else a line to the first control point and a
  quadratic curve around the vertex.
\<close>

definition smoothCorner :: "point list \<Rightarrow> real \<Rightarrow> nat \<Rightarrow> pathCommand list" where
  "smoothCorner contour radius i =
     (let p0 = contour ! ((i - 1 + length contour) mod length contour);
          p1 = contour ! i;
          p2 = contour ! ((i + 1) mod length contour);
          v1x = real_of_int (fst p1 - fst p0);
          v1y = real_of_int (snd p1 - snd p0);
          v2x = real_of_int (fst p2 - fst p1);
          v2y = real_of_int (snd p2 - snd p1);
          v1Len = sqrt (v1x * v1x + v1y * v1y);
          v2Len = sqrt (v2x * v2x + v2y * v2y)
      in if v1Len < 1 \<or> v2Len < 1 then [LineTo (real_of_int (fst p1)) (real_of_int (snd p1))]
         else
           (let v1nx = v1x / v1Len; v1ny = v1y / v1Len;
                v2nx = v2x / v2Len; v2ny = v2y / v2Len;
                cp1x = real_of_int (fst p1) - v1nx * radius;
                cp1y = real_of_int (snd p1) - v1ny * radius;
                cp2x = real_of_int (fst p1) + v2nx * radius;
                cp2y = real_of_int (snd p1) + v2ny * radius
            in [LineTo cp1x cp1y,
                QuadTo (real_of_int (fst p1)) (real_of_int (snd p1)) cp2x cp2y]))"

definition contourToSvgPath :: "point list \<Rightarrow> real \<Rightarrow> pathCommand list" where
  "contourToSvgPath contour smoothing =
     (if length contour = 0 then []
      else
        (let pathData = [MoveTo (real_of_int (fst (contour ! 0))) (real_of_int (snd (contour ! 0)))]
         in (if smoothing = 0 then
               fold (\<lambda>i pathData.
                       pathData @ [LineTo (real_of_int (fst (contour ! i)))
                                          (real_of_int (snd (contour ! i)))])
                    [1..<length contour] pathData
             else
               (let radius = smoothing * 0.5
                in fold (\<lambda>i pathData. pathData @ smoothCorner contour radius i)
                     [1..<length contour] pathData))
            @ [ClosePath]))"


section \<open>Circular layout: \<open>generateSpinner\<close> (spinnerGenerator.js)\<close>

text \<open>
  The layout options that the placement reads, each \<open>None\<close> when the property is
  \<open>undefined\<close>; the destructuring defaults of \<open>generateSpinnerSvg\<close> apply to \<open>None\<close> only.
  \<open>frameCount\<close> is a natural number, the other options are reals.
\<close>

record spinnerOptions =
  so_diameter :: "real option"
  so_frameCount :: "nat option"
  so_spacing :: "real option"
  so_bearingDiameter :: "real option"

definition withDefault :: "'a option \<Rightarrow> 'a \<Rightarrow> 'a" where
  "withDefault v d = (case v of None \<Rightarrow> d | Some a \<Rightarrow> a)"

record position =
  pos_x :: real
  pos_y :: real
  pos_angle :: real
  pos_scale :: real

text \<open>
  \<open>calculateFramePositions\<close>: the radius is computed and used as it is, there is no test
  on its sign. With \<open>count = 0\<close> the loop does not run, so the values of \<open>angleStep\<close> and
  \<open>scale\<close> (divisions by zero in the source) are never used.
\<close>

definition calculateFramePositions :: "nat \<Rightarrow> real \<Rightarrow> real \<Rightarrow> real \<Rightarrow> position list" where
  "calculateFramePositions count diameter bearingDiameter spacing =
     (let radius = (diameter - bearingDiameter) / 2 - spacing;
          angleStep = (2 * pi) / real count;
          approximateFrameSize = 2 * radius * sin (pi / real count);
          scale = approximateFrameSize / 50
      in fold (\<lambda>i positions.
                 (let angle = real i * angleStep
                  in positions @ [\<lparr>pos_x = cos angle * radius, pos_y = sin angle * radius,
                                    pos_angle = angle * (180 / pi), pos_scale = scale\<rparr>]))
           [0..<count] [])"

text \<open>
  The placement radius of a layout request: the radius that \<open>calculateFramePositions\<close>
  computes from the options as \<open>generateSpinnerSvg\<close> passes them.
\<close>

definition placementRadius :: "spinnerOptions \<Rightarrow> real" where
  "placementRadius options =
     (withDefault (so_diameter options) 100 - withDefault (so_bearingDiameter options) 22) / 2
       - withDefault (so_spacing options) 5"

text \<open>
  The errors the layout code can raise: \<open>new Error(message)\<close>, and the \<open>TypeError\<close> of
  calling \<open>cloneNode\<close> on \<open>undefined\<close>, which is what \<open>svgFrames[i % 0]\<close> is for an empty
  frame list.
\<close>

datatype error = Error string | TypeError

text \<open>
  The design that \<open>generateSpinnerSvg\<close> assembles: the side of the square canvas, the
  frame positions (from which the outline is drawn), the placed frames, each a source
  frame with its position, and the diameter of the bearing. The outline and bearing
  elements are drawn from these values by arithmetic that raises nothing; their path
  strings are not part of the model.
\<close>

record 'f spinnerDesign =
  sd_size :: real
  sd_positions :: "position list"
  sd_frames :: "('f \<times> position) list"
  sd_bearing :: real

definition generateSpinnerSvg ::
    "'f list \<Rightarrow> spinnerOptions \<Rightarrow> bool \<Rightarrow> error + 'f spinnerDesign" where
  "generateSpinnerSvg svgFrames options isPreview =
     (let diameter = withDefault (so_diameter options) 100;
          frameCount = withDefault (so_frameCount options) 8;
          spacing = withDefault (so_spacing options) 5;
          bearingDiameter = withDefault (so_bearingDiameter options) 22;
          framePositions = calculateFramePositions frameCount diameter bearingDiameter spacing
      in if frameCount > 0 \<and> length svgFrames = 0 then Inl TypeError
         else Inr \<lparr>sd_size = diameter,
                   sd_positions = framePositions,
                   sd_frames = fold (\<lambda>i framesGroup.
                                       framesGroup @ [(svgFrames ! (i mod length svgFrames),
                                                       framePositions ! i)])
                                 [0..<frameCount] [],
                   sd_bearing = bearingDiameter\<rparr>)"

text \<open>
  \<open>generateSpinner\<close> returns a promise. The model returns the calls made to
  \<open>progressCallback\<close>, in order, and the outcome: \<open>Inl\<close> when the promise is rejected,
  \<open>Inr\<close> when it is resolved with the design.
\<close>

definition generateSpinner ::
    "'f list \<Rightarrow> spinnerOptions \<Rightarrow> (nat \<times> string) list \<times> (error + 'f spinnerDesign)" where
  "generateSpinner svgFrames options =
     (if length svgFrames = 0 then ([], Inl (Error ''No frames available''))
      else
        (case generateSpinnerSvg svgFrames options False of
           Inl e \<Rightarrow> ([(10, ''Setting up spinner layout...'')], Inl e)
         | Inr spinnerSvg \<Rightarrow>
             ([(10, ''Setting up spinner layout...''), (40, ''Arranging frames...''),
               (70, ''Creating bearing...''), (90, ''Finalizing spinner design...''),
               (100, ''Spinner generated successfully!'')],
              Inr spinnerSvg)))"


section \<open>Properties of path simplification\<close>

text \<open>
  When the search loop ends with a positive maximum, its index is that of an interior
  point.
\<close>

lemma farthestStep_cases:
  "farthestStep contour i st = st \<or> snd (farthestStep contour i st) = i"
  by (simp add: farthestStep_def Let_def)

lemma fold_farthestStep_cases:
  "fold (farthestStep contour) js st = st \<or> snd (fold (farthestStep contour) js st) \<in> set js"
proof (induction js arbitrary: st)
  case Nil
  show ?case by simp
next
  case (Cons j js)
  from Cons.IH [of "farthestStep contour j st"] farthestStep_cases [of contour j st]
  show ?case by auto
qed

lemma farthest_pos_index:
  assumes "0 < fst (farthest contour)"
  shows "1 \<le> snd (farthest contour)" and "snd (farthest contour) < length contour - 1"
proof -
  from assms have "farthest contour \<noteq> (0, 0)" by auto
  with fold_farthestStep_cases [of contour "[1..<length contour - 1]" "(0, 0)"]
  have "snd (farthest contour) \<in> set [1..<length contour - 1]"
    by (simp add: farthest_def)
  then show "1 \<le> snd (farthest contour)" and "snd (farthest contour) < length contour - 1"
    by simp_all
qed

text \<open>
  For a tolerance \<open>\<ge> 0\<close> the function returns; at least two points give at least two
  points, and the end points stay.
\<close>

lemma simplifyContour_ends:
  "0 \<le> t \<Longrightarrow> \<exists>r. simplifyContour c t = Some r \<and> (2 \<le> length c \<longrightarrow> 2 \<le> length r)
      \<and> (c \<noteq> [] \<longrightarrow> r \<noteq> [] \<and> hd r = hd c \<and> last r = last c)"
proof (induction c t rule: simplifyContour.induct)
  case (1 contour tolerance)
  show ?case
  proof (cases "length contour \<le> 2")
    case True
    then show ?thesis by (simp add: simplifyContour.simps)
  next
    case long: False
    show ?thesis
    proof (cases "fst (farthest contour) > tolerance")
      case False
      with long show ?thesis
        by (simp add: simplifyContour.simps hd_conv_nth last_conv_nth)
    next
      case split: True
      define k where "k = snd (farthest contour)"
      from split \<open>0 \<le> tolerance\<close> have pos: "0 < fst (farthest contour)" by simp
      from farthest_pos_index [OF pos] have k1: "1 \<le> k" and k2: "k < length contour - 1"
        by (simp_all add: k_def)
      then have k0: "snd (farthest contour) \<noteq> 0" by (simp add: k_def)
      from "1.IH"(1) [OF long split k0 \<open>0 \<le> tolerance\<close>] k1 k2
      obtain part1 where p1: "simplifyContour (take (k + 1) contour) tolerance = Some part1"
        and l1: "2 \<le> length part1" and h1: "hd part1 = hd contour"
        by (auto simp: k_def)
      from "1.IH"(2) [OF long split k0 _ \<open>0 \<le> tolerance\<close>, of part1] p1 k1 k2
      obtain part2 where p2: "simplifyContour (drop k contour) tolerance = Some part2"
        and l2: "2 \<le> length part2" and e2: "last part2 = last contour"
        by (auto simp: k_def)
      have res: "simplifyContour contour tolerance = Some (butlast part1 @ part2)"
        using long split k0 p1 p2
        by (subst simplifyContour.simps) (simp add: k_def)
      from l1 have "butlast part1 \<noteq> []" by (cases part1) (auto split: if_splits)
      then have "hd (butlast part1 @ part2) = hd part1"
        by (cases part1) (auto split: if_splits)
      moreover from l2 have "part2 \<noteq> []" by auto
      then have "last (butlast part1 @ part2) = last part2" by simp
      moreover from l1 l2 have "2 \<le> length (butlast part1 @ part2)" by simp
      ultimately show ?thesis using res h1 e2 l2 by auto
    qed
  qed
qed

text \<open>
  Claim C8. For every contour and all tolerances \<open>t \<ge> t' \<ge> 0\<close>, \<open>simplifyContour\<close>
  returns for both tolerances, and the result for \<open>t\<close> has at most as many points as the
  result for \<open>t'\<close>.
\<close>

theorem simplifyContour_tolerance_monotone:
  "0 \<le> t' \<Longrightarrow> t' \<le> t \<Longrightarrow>
     \<exists>r r'. simplifyContour c t = Some r \<and> simplifyContour c t' = Some r' \<and> length r \<le> length r'"
proof (induction c t' rule: simplifyContour.induct)
  case (1 contour tolerance)
  note t0 = \<open>0 \<le> tolerance\<close> and tt = \<open>tolerance \<le> t\<close>
  show ?case
  proof (cases "length contour \<le> 2")
    case True
    then show ?thesis by (simp add: simplifyContour.simps)
  next
    case long: False
    show ?thesis
    proof (cases "fst (farthest contour) > tolerance")
      case False
      with long tt show ?thesis
        by (simp add: simplifyContour.simps)
    next
      case split: True
      define k where "k = snd (farthest contour)"
      from split t0 have pos: "0 < fst (farthest contour)" by simp
      from farthest_pos_index [OF pos] have k1: "1 \<le> k" and k2: "k < length contour - 1"
        by (simp_all add: k_def)
      then have k0: "snd (farthest contour) \<noteq> 0" by (simp add: k_def)
      from "1.IH"(1) [OF long split k0 t0 tt]
      obtain r1 part1 where q1: "simplifyContour (take (k + 1) contour) t = Some r1"
        and p1: "simplifyContour (take (k + 1) contour) tolerance = Some part1"
        and le1: "length r1 \<le> length part1"
        by (auto simp: k_def)
      from "1.IH"(2) [OF long split k0 _ t0 tt, of part1] p1
      obtain r2 part2 where q2: "simplifyContour (drop k contour) t = Some r2"
        and p2: "simplifyContour (drop k contour) tolerance = Some part2"
        and le2: "length r2 \<le> length part2"
        by (auto simp: k_def)
      have res': "simplifyContour contour tolerance = Some (butlast part1 @ part2)"
        using long split k0 p1 p2
        by (subst simplifyContour.simps) (simp add: k_def)
      from simplifyContour_ends [OF t0, of "take (k + 1) contour"] p1 k1 k2
      have l1: "2 \<le> length part1" by auto
      from simplifyContour_ends [OF t0, of "drop k contour"] p2 k1 k2
      have l2: "2 \<le> length part2" by auto
      show ?thesis
      proof (cases "fst (farthest contour) > t")
        case True
        have "simplifyContour contour t = Some (butlast r1 @ r2)"
          using long True k0 q1 q2
          by (subst simplifyContour.simps) (simp add: k_def)
        with res' le1 le2 show ?thesis by simp
      next
        case False
        with long have "simplifyContour contour t = Some [contour ! 0, contour ! (length contour - 1)]"
          by (subst simplifyContour.simps) simp
        with res' l1 l2 show ?thesis by simp
      qed
    qed
  qed
qed

theorem simplifyContour_tolerance_monotone_witness:
  "(0 :: real) \<le> 0 \<and> (0 :: real) \<le> 2 \<and>
   (\<exists>r r'. simplifyContour [(0, 0), (1, 1), (2, 0)] 2 = Some r \<and>
      simplifyContour [(0, 0), (1, 1), (2, 0)] 0 = Some r' \<and> length r \<le> length r')"
  using simplifyContour_tolerance_monotone [of 0 2 "[(0, 0), (1, 1), (2, 0)]"] by simp

text \<open>
  Claim C10. For every non-empty contour and every tolerance \<open>\<ge> 0\<close>, \<open>simplifyContour\<close>
  returns a non-empty contour whose first point is the first point of the input and whose
  last point is the last point of the input.
\<close>

theorem simplifyContour_preserves_endpoints:
  "contour \<noteq> [] \<Longrightarrow> 0 \<le> tolerance \<Longrightarrow>
     \<exists>r. simplifyContour contour tolerance = Some r \<and> r \<noteq> [] \<and>
       r ! 0 = contour ! 0 \<and> r ! (length r - 1) = contour ! (length contour - 1)"
proof -
  assume ne: "contour \<noteq> []" and t0: "0 \<le> tolerance"
  from simplifyContour_ends [OF t0, of contour] ne
  obtain r where "simplifyContour contour tolerance = Some r" "r \<noteq> []"
    "hd r = hd contour" "last r = last contour" by auto
  with ne show ?thesis by (simp add: hd_conv_nth last_conv_nth)
qed

theorem simplifyContour_preserves_endpoints_witness:
  "[(0, 0), (1, 0), (2, 0), (2, 5 :: int)] \<noteq> [] \<and> (0 :: real) \<le> 1 \<and>
   (\<exists>r. simplifyContour [(0, 0), (1, 0), (2, 0), (2, 5)] 1 = Some r \<and> r \<noteq> [] \<and>
      r ! 0 = [(0, 0), (1, 0), (2, 0), (2, 5)] ! 0 \<and>
      r ! (length r - 1) = [(0, 0), (1, 0), (2, 0), (2, 5)] ! (length [(0, 0), (1, 0), (2, 0), (2, 5 :: int)] - 1))"
  using simplifyContour_preserves_endpoints [of "[(0, 0), (1, 0), (2, 0), (2, 5)]" 1] by simp

text \<open>
  Claim C1, as stated, fails: with tolerance \<open>0\<close> the three collinear points
  \<open>(0,0), (1,0), (2,0)\<close> are reduced to the two end points, because the middle point has
  distance \<open>0\<close> and the test \<open>maxDist > tolerance\<close> is strict.
\<close>

theorem simplifyContour_zero_identity_counterexample:
  "3 \<le> length [(0, 0), (1, 0), (2, 0 :: int)] \<and>
   simplifyContour [(0, 0), (1, 0), (2, 0)] 0 = Some [(0, 0), (2, 0)] \<and>
   simplifyContour [(0, 0), (1, 0), (2, 0)] 0 \<noteq> Some [(0, 0), (1, 0), (2, 0)]"
  by (simp add: simplifyContour.simps farthest_def farthestStep_def pointLineDistance_def)

lemma farthestStep_fst_mono: "fst st \<le> fst (farthestStep contour i st)"
  by (simp add: farthestStep_def Let_def)

lemma fold_farthestStep_fst_mono: "fst st \<le> fst (fold (farthestStep contour) js st)"
proof (induction js arbitrary: st)
  case Nil
  show ?case by simp
next
  case (Cons j js)
  from Cons.IH [of "farthestStep contour j st"] farthestStep_fst_mono [of st contour j]
  show ?case by simp
qed

lemma fold_farthestStep_bound:
  "j \<in> set js \<Longrightarrow>
     pointLineDistance (contour ! j) (contour ! 0) (contour ! (length contour - 1))
       \<le> fst (fold (farthestStep contour) js st)"
proof (induction js arbitrary: st)
  case Nil
  then show ?case by simp
next
  case (Cons i js)
  show ?case
  proof (cases "j = i")
    case True
    have "pointLineDistance (contour ! i) (contour ! 0) (contour ! (length contour - 1))
            \<le> fst (farthestStep contour i st)"
      by (simp add: farthestStep_def Let_def)
    also have "\<dots> \<le> fst (fold (farthestStep contour) js (farthestStep contour i st))"
      by (rule fold_farthestStep_fst_mono)
    finally show ?thesis using True by simp
  next
    case False
    with Cons.prems have "j \<in> set js" by simp
    from Cons.IH [OF this] show ?thesis by simp
  qed
qed

lemma farthest_bound:
  "1 \<le> j \<Longrightarrow> j < length contour - 1 \<Longrightarrow>
     pointLineDistance (contour ! j) (contour ! 0) (contour ! (length contour - 1))
       \<le> fst (farthest contour)"
  unfolding farthest_def by (rule fold_farthestStep_bound) simp

lemma noFlatRunD:
  "noFlatRun c \<Longrightarrow> j < length c \<Longrightarrow> i + 2 \<le> j \<Longrightarrow>
     \<exists>k. i < k \<and> k < j \<and> 0 < pointLineDistance (c ! k) (c ! i) (c ! j)"
proof -
  assume c: "noFlatRun c" and j: "j < length c" and ij: "i + 2 \<le> j"
  from ij have "i < j" by simp
  with c j ij have "\<exists>k \<in> {i + 1..<j}. 0 < pointLineDistance (c ! k) (c ! i) (c ! j)"
    unfolding noFlatRun_def by blast
  then obtain k where "k \<in> {i + 1..<j}" and "0 < pointLineDistance (c ! k) (c ! i) (c ! j)" ..
  then show ?thesis by (intro exI [of _ k]) simp
qed

lemma noFlatRunI:
  "(\<And>i j. j < length c \<Longrightarrow> i + 2 \<le> j \<Longrightarrow>
      \<exists>k. i < k \<and> k < j \<and> 0 < pointLineDistance (c ! k) (c ! i) (c ! j)) \<Longrightarrow> noFlatRun c"
  unfolding noFlatRun_def
proof (intro allI impI)
  fix j i
  assume r: "\<And>i j. j < length c \<Longrightarrow> i + 2 \<le> j \<Longrightarrow>
      \<exists>k. i < k \<and> k < j \<and> 0 < pointLineDistance (c ! k) (c ! i) (c ! j)"
    and "j < length c" and "i + 2 \<le> j"
  from r [OF this(2,3)] obtain k where "i < k" "k < j" "0 < pointLineDistance (c ! k) (c ! i) (c ! j)"
    by blast
  then show "\<exists>k \<in> {i + 1..<j}. 0 < pointLineDistance (c ! k) (c ! i) (c ! j)"
    by (intro bexI [of _ k]) simp_all
qed

lemma noFlatRun_take:
  assumes "noFlatRun c"
  shows "noFlatRun (take n c)"
proof (rule noFlatRunI)
  fix i j
  assume j: "j < length (take n c)" and ij: "i + 2 \<le> j"
  then have "j < length c" by simp
  from noFlatRunD [OF assms this ij] obtain k
    where k: "i < k" "k < j" and d: "0 < pointLineDistance (c ! k) (c ! i) (c ! j)" by blast
  from j k ij have "take n c ! k = c ! k" "take n c ! i = c ! i" "take n c ! j = c ! j"
    by simp_all
  with k d show "\<exists>k. i < k \<and> k < j \<and> 0 < pointLineDistance (take n c ! k) (take n c ! i) (take n c ! j)"
    by (intro exI [of _ k]) simp
qed

lemma noFlatRun_drop:
  assumes "noFlatRun c"
  shows "noFlatRun (drop n c)"
proof (rule noFlatRunI)
  fix i j
  assume j: "j < length (drop n c)" and ij: "i + 2 \<le> j"
  then have jn: "n + j < length c" and ijn: "(n + i) + 2 \<le> n + j" by simp_all
  from noFlatRunD [OF assms jn ijn] obtain k
    where k: "n + i < k" "k < n + j"
      and d: "0 < pointLineDistance (c ! k) (c ! (n + i)) (c ! (n + j))" by blast
  from k have kk: "n + (k - n) = k" by simp
  from jn k ij have "drop n c ! (k - n) = c ! k" "drop n c ! i = c ! (n + i)" "drop n c ! j = c ! (n + j)"
    by (simp_all add: kk)
  with k d show "\<exists>k. i < k \<and> k < j \<and> 0 < pointLineDistance (drop n c ! k) (drop n c ! i) (drop n c ! j)"
    by (intro exI [of _ "k - n"]) auto
qed

text \<open>
  Claim C1, amended. With tolerance \<open>0\<close>, \<open>simplifyContour\<close> returns the contour unchanged
  whenever the contour has no flat run, that is, whenever every run of three or more
  consecutive points has an interior point at positive distance from the segment joining
  the run's ends.
\<close>

theorem simplifyContour_zero_noFlatRun:
  "noFlatRun c \<Longrightarrow> simplifyContour c 0 = Some c"
proof (induction c "0 :: real" rule: simplifyContour.induct)
  case (1 contour)
  show ?case
  proof (cases "length contour \<le> 2")
    case True
    then show ?thesis by (simp add: simplifyContour.simps)
  next
    case long: False
    from long have "length contour - 1 < length contour" and "0 + 2 \<le> length contour - 1"
      by simp_all
    from noFlatRunD [OF \<open>noFlatRun contour\<close> this]
    obtain m where m: "1 \<le> m" "m < length contour - 1"
      and d: "0 < pointLineDistance (contour ! m) (contour ! 0) (contour ! (length contour - 1))"
      by (auto simp: Suc_le_eq)
    from farthest_bound [OF m] d have pos: "0 < fst (farthest contour)" by simp
    define k where "k = snd (farthest contour)"
    from farthest_pos_index [OF pos] have k1: "1 \<le> k" and k2: "k < length contour - 1"
      by (simp_all add: k_def)
    then have k0: "snd (farthest contour) \<noteq> 0" by (simp add: k_def)
    from "1.hyps"(1) [OF long pos k0 noFlatRun_take [OF \<open>noFlatRun contour\<close>]]
    have p1: "simplifyContour (take (k + 1) contour) 0 = Some (take (k + 1) contour)"
      by (simp add: k_def)
    from "1.hyps"(2) [OF long pos k0 _ noFlatRun_drop [OF \<open>noFlatRun contour\<close>]] p1
    have p2: "simplifyContour (drop k contour) 0 = Some (drop k contour)"
      by (simp add: k_def)
    have "simplifyContour contour 0 = Some (butlast (take (k + 1) contour) @ drop k contour)"
      using long pos k0 p1 p2
      by (subst simplifyContour.simps) (simp add: k_def)
    moreover from k2 have "butlast (take (k + 1) contour) = take k contour"
      by (simp add: butlast_take)
    ultimately show ?thesis by simp
  qed
qed

theorem simplifyContour_zero_noFlatRun_witness:
  "noFlatRun [(0, 0), (1, 1), (2, 0)] \<and>
   simplifyContour [(0, 0), (1, 1), (2, 0)] 0 = Some [(0, 0), (1, 1), (2, 0)]"
proof -
  have h: "noFlatRun [(0, 0), (1, 1), (2, 0)]"
    unfolding noFlatRun_def
    by (auto simp: pointLineDistance_def less_Suc_eq numeral_3_eq_3)
  from simplifyContour_zero_noFlatRun [OF h] h show ?thesis by simp
qed

section \<open>Properties of bitmap preprocessing\<close>

text \<open>
  The two nested loops over \<open>y\<close> and \<open>x\<close> are one loop over the pixels in scan order, and
  a loop that writes each cell of an array once leaves in a cell the value written there.
\<close>

lemma fold_concat_map:
  "fold F (concat (map R ys)) s = fold (\<lambda>y. fold F (R y)) ys s"
  by (induction ys arbitrary: s) simp_all

lemma fold_rows_scanOrder:
  "fold (\<lambda>y s. fold (\<lambda>x s. F x y s) [0..<w] s) [0..<h] s0
     = fold (\<lambda>(x, y) s. F x y s) (scanOrder w h) s0"
  by (simp add: scanOrder_def fold_concat_map fold_map comp_def)

lemma set_scanOrder: "set (scanOrder w h) = {(x, y). x < w \<and> y < h}"
  by (auto simp: scanOrder_def)

lemma cell_index_inj:
  assumes "x < w" "x' < w" "y * w + x = y' * w + x'"
  shows "x = x' \<and> y = (y' :: nat)"
proof -
  from assms(1) have "(y * w + x) div w = y" and "(y * w + x) mod w = x" by simp_all
  moreover from assms(2) have "(y' * w + x') div w = y'" and "(y' * w + x') mod w = x'"
    by simp_all
  ultimately show ?thesis using assms(3) by metis
qed

lemma inj_on_scanOrder: "inj_on (\<lambda>(x, y). y * w + x) (set (scanOrder w h))"
  by (auto simp: inj_on_def set_scanOrder dest: cell_index_inj)

lemma cell_index_less: "x < w \<Longrightarrow> y < h \<Longrightarrow> y * w + x < w * (h :: nat)"
proof -
  assume "x < w" "y < h"
  then have "y * w + x < Suc y * w" and "Suc y \<le> h" by simp_all
  moreover from this(2) have "Suc y * w \<le> h * w" by (rule mult_le_mono1)
  ultimately show ?thesis by (simp add: mult.commute)
qed

lemma length_fold_update:
  "length (fold (\<lambda>q bm. bm[idx q := g q]) ps bm) = length bm"
  by (induction ps arbitrary: bm) simp_all

lemma fold_update_nth:
  "p \<in> set ps \<Longrightarrow> inj_on idx (set ps) \<Longrightarrow> idx p < length bm \<Longrightarrow>
     fold (\<lambda>q bm. bm[idx q := g q]) ps bm ! idx p = g p"
proof (induction ps arbitrary: bm rule: rev_induct)
  case Nil
  then show ?case by simp
next
  case (snoc q ps)
  show ?case
  proof (cases "q = p")
    case True
    with snoc.prems(3) show ?thesis by (simp add: length_fold_update)
  next
    case False
    with snoc.prems have "p \<in> set ps" and "inj_on idx (set ps)" and "idx q \<noteq> idx p"
      by (auto simp: inj_on_def)
    with snoc.IH [of bm] snoc.prems(3) show ?thesis by simp
  qed
qed

lemma fold_update_bound:
  "(\<And>q. g q \<le> (c :: nat)) \<Longrightarrow> \<forall>v \<in> set bm. v \<le> c \<Longrightarrow>
     \<forall>v \<in> set (fold (\<lambda>q bm. bm[idx q := g q]) ps bm). v \<le> c"
proof (induction ps arbitrary: bm)
  case Nil
  then show ?case by simp
next
  case (Cons q ps)
  have "\<forall>v \<in> set (bm[idx q := g q]). v \<le> c"
    using Cons.prems set_update_subset_insert [of bm "idx q" "g q"] by auto
  from Cons.IH [OF Cons.prems(1) this] show ?case by simp
qed

lemma preprocessBitmap_nth:
  assumes "x < img_width img" "y < img_height img"
  shows "preprocessBitmap img opts ! (y * img_width img + x)
           = simplePixel (img_data img) (orDefault (opt_threshold opts) 128)
               ((y * img_width img + x) * 4)"
proof -
  let ?w = "img_width img" and ?h = "img_height img"
  let ?g = "\<lambda>(x, y). simplePixel (img_data img) (orDefault (opt_threshold opts) 128) ((y * ?w + x) * 4)"
  have "preprocessBitmap img opts
          = fold (\<lambda>q bm. bm[(\<lambda>(x, y). y * ?w + x) q := ?g q]) (scanOrder ?w ?h) (replicate (?w * ?h) 0)"
    by (simp add: preprocessBitmap_def Let_def fold_rows_scanOrder case_prod_unfold)
  moreover have "fold (\<lambda>q bm. bm[(\<lambda>(x, y). y * ?w + x) q := ?g q]) (scanOrder ?w ?h) (replicate (?w * ?h) 0)
                   ! (\<lambda>(x, y). y * ?w + x) (x, y) = ?g (x, y)"
    using assms by (intro fold_update_nth inj_on_scanOrder) (simp_all add: set_scanOrder cell_index_less)
  ultimately show ?thesis by simp
qed

lemma grayPixel_le: "grayPixel data i \<le> 255"
  by (auto simp: grayPixel_def split: option.splits intro: less_imp_le_nat order_less_le_trans)

lemma grayscaleOf_conv:
  "grayscaleOf w h data
     = fold (\<lambda>q bm. bm[(\<lambda>(x, y). y * w + x) q := (\<lambda>(x, y). grayPixel data ((y * w + x) * 4)) q])
         (scanOrder w h) (replicate (w * h) 0)"
  by (simp add: grayscaleOf_def fold_rows_scanOrder case_prod_unfold)

lemma length_grayscaleOf: "length (grayscaleOf w h data) = w * h"
  by (simp add: grayscaleOf_conv length_fold_update)

lemma grayscaleOf_le: "k < w * h \<Longrightarrow> grayscaleOf w h data ! k \<le> 255"
proof -
  assume k: "k < w * h"
  have "\<forall>v \<in> set (grayscaleOf w h data). v \<le> 255"
    unfolding grayscaleOf_conv
    by (rule fold_update_bound) (auto simp: grayPixel_le)
  with k show ?thesis by (simp add: length_grayscaleOf)
qed

lemma grayscaleOf_nth:
  assumes "x < w" "y < h"
  shows "grayscaleOf w h data ! (y * w + x) = grayPixel data ((y * w + x) * 4)"
proof -
  let ?g = "\<lambda>(x, y). grayPixel data ((y * w + x) * 4)"
  have "fold (\<lambda>q bm. bm[(\<lambda>(x, y). y * w + x) q := ?g q]) (scanOrder w h) (replicate (w * h) 0)
          ! (\<lambda>(x, y). y * w + x) (x, y) = ?g (x, y)"
    using assms by (intro fold_update_nth inj_on_scanOrder) (simp_all add: set_scanOrder cell_index_less)
  then show ?thesis by (simp add: grayscaleOf_conv)
qed

text \<open>The window sum never exceeds 255 times the number of cells counted.\<close>

lemma windowStep_bound:
  assumes g: "\<And>k. k < w * h \<Longrightarrow> gs ! k \<le> (255 :: nat)"
    and acc: "fst acc \<le> 255 * snd acc"
  shows "fst (windowStep gs w h x y dy dx acc) \<le> 255 * snd (windowStep gs w h x y dy dx acc)"
proof -
  let ?nx = "int x + dx" and ?ny = "int y + dy"
  show ?thesis
  proof (cases "?nx \<ge> 0 \<and> ?nx < int w \<and> ?ny \<ge> 0 \<and> ?ny < int h")
    case True
    then have "nat ?nx < w" "nat ?ny < h" by auto
    then have "nat ?ny * w + nat ?nx < w * h" by (rule cell_index_less)
    moreover from True have "nat (?ny * int w + ?nx) = nat ?ny * w + nat ?nx"
      by (simp add: nat_add_distrib nat_mult_distrib)
    ultimately have "gs ! nat (?ny * int w + ?nx) \<le> 255" using g by simp
    moreover from True have "windowStep gs w h x y dy dx acc
        = (fst acc + gs ! nat (?ny * int w + ?nx), snd acc + 1)"
      by (simp add: windowStep_def Let_def)
    ultimately show ?thesis using acc by simp
  next
    case False
    have "windowStep gs w h x y dy dx acc = acc"
      by (simp only: windowStep_def Let_def if_not_P [OF False] prod.collapse)
    with acc show ?thesis by simp
  qed
qed

lemma fold_windowStep_bound:
  assumes g: "\<And>k. k < w * h \<Longrightarrow> gs ! k \<le> (255 :: nat)"
  shows "fst acc \<le> 255 * snd acc \<Longrightarrow>
     fst (fold (windowStep gs w h x y dy) dxs acc) \<le> 255 * snd (fold (windowStep gs w h x y dy) dxs acc)"
proof (induction dxs arbitrary: acc)
  case Nil
  then show ?case by simp
next
  case (Cons dx dxs)
  from windowStep_bound [OF g Cons.prems] have
    "fst (windowStep gs w h x y dy dx acc) \<le> 255 * snd (windowStep gs w h x y dy dx acc)" .
  from Cons.IH [OF this] show ?case by simp
qed

lemma fold_rows_windowStep_bound:
  assumes g: "\<And>k. k < w * h \<Longrightarrow> gs ! k \<le> (255 :: nat)"
  shows "fst acc \<le> 255 * snd acc \<Longrightarrow>
     fst (fold (\<lambda>dy acc. fold (windowStep gs w h x y dy) dxs acc) dys acc)
       \<le> 255 * snd (fold (\<lambda>dy acc. fold (windowStep gs w h x y dy) dxs acc) dys acc)"
proof (induction dys arbitrary: acc)
  case Nil
  then show ?case by simp
next
  case (Cons dy dys)
  from fold_windowStep_bound [OF g Cons.prems] have
    "fst (fold (windowStep gs w h x y dy) dxs acc) \<le> 255 * snd (fold (windowStep gs w h x y dy) dxs acc)" .
  from Cons.IH [OF this] show ?case by simp
qed

lemma windowSum_bound:
  assumes g: "\<And>k. k < w * h \<Longrightarrow> gs ! k \<le> (255 :: nat)"
  shows "fst (windowSum gs w h bs x y) \<le> 255 * snd (windowSum gs w h bs x y)"
  unfolding windowSum_def by (rule fold_rows_windowStep_bound [OF g]) simp_all

lemma adaptivePixel_transparent:
  assumes g: "\<And>k. k < w * h \<Longrightarrow> gs ! k \<le> (255 :: nat)"
    and px: "gs ! (y * w + x) = 255" and d: "detailLevel \<le> 10"
  shows "adaptivePixel gs w h detailLevel x y = 0"
proof -
  obtain s c where sc: "windowSum gs w h (11 - detailLevel) x y = (s, c)"
    by (cases "windowSum gs w h (11 - detailLevel) x y")
  have "fst (windowSum gs w h (11 - detailLevel) x y) \<le> 255 * snd (windowSum gs w h (11 - detailLevel) x y)"
    by (rule windowSum_bound) (rule g)
  with sc have le: "s \<le> 255 * c" by simp
  show ?thesis
  proof (cases "c = 0")
    case True
    with sc show ?thesis by (simp add: adaptivePixel_def)
  next
    case False
    from le have "real s \<le> 255 * real c" by (metis of_nat_le_iff of_nat_mult of_nat_numeral)
    with False have "real s / real c \<le> 255" by (simp add: divide_le_eq)
    with d have "\<not> (255 < real s / real c - real_of_int (10 - detailLevel))" by simp
    with sc px False show ?thesis by (simp add: adaptivePixel_def)
  qed
qed

lemma preprocessBitmapAdvanced_nth:
  assumes "x < img_width img" "y < img_height img"
  shows "preprocessBitmapAdvanced img opts ! (y * img_width img + x)
           = adaptivePixel (grayscaleOf (img_width img) (img_height img) (img_data img))
               (img_width img) (img_height img) (orDefault (opt_detailLevel opts) 5) x y"
proof -
  let ?w = "img_width img" and ?h = "img_height img"
  let ?g = "\<lambda>(x, y). adaptivePixel (grayscaleOf ?w ?h (img_data img)) ?w ?h
              (orDefault (opt_detailLevel opts) 5) x y"
  have "preprocessBitmapAdvanced img opts
          = fold (\<lambda>q bm. bm[(\<lambda>(x, y). y * ?w + x) q := ?g q]) (scanOrder ?w ?h) (replicate (?w * ?h) 0)"
    by (simp add: preprocessBitmapAdvanced_def Let_def fold_rows_scanOrder case_prod_unfold)
  moreover have "fold (\<lambda>q bm. bm[(\<lambda>(x, y). y * ?w + x) q := ?g q]) (scanOrder ?w ?h) (replicate (?w * ?h) 0)
                   ! (\<lambda>(x, y). y * ?w + x) (x, y) = ?g (x, y)"
    using assms by (intro fold_update_nth inj_on_scanOrder) (simp_all add: set_scanOrder cell_index_less)
  ultimately show ?thesis by simp
qed

text \<open>
  Claim C7. A pixel whose alpha component is \<open>0\<close> is background (occupancy value \<open>0\<close>) in
  the bitmap of the simple mode and in the bitmap of the adaptive mode, whatever its
  \<open>R, G, B\<close> values and the threshold are, for every detail level in the documented range
  \<open>1 .. 10\<close> (or left undefined).
\<close>

theorem alpha_zero_is_background:
  assumes x: "x < img_width img" and y: "y < img_height img"
    and a: "rd (img_data img) ((y * img_width img + x) * 4 + 3) = Some 0"
    and d: "case opt_detailLevel opts of None \<Rightarrow> True | Some d \<Rightarrow> 1 \<le> d \<and> d \<le> 10"
  shows "preprocessBitmap img opts ! (y * img_width img + x) = 0 \<and>
         preprocessBitmapAdvanced img opts ! (y * img_width img + x) = 0"
proof
  from a show "preprocessBitmap img opts ! (y * img_width img + x) = 0"
    by (simp add: preprocessBitmap_nth [OF x y] simplePixel_def)
next
  let ?w = "img_width img" and ?h = "img_height img"
  let ?gs = "grayscaleOf ?w ?h (img_data img)"
  from d have dl: "orDefault (opt_detailLevel opts) 5 \<le> 10"
    by (simp add: orDefault_def split: option.splits)
  from a have "?gs ! (y * ?w + x) = 255"
    by (simp add: grayscaleOf_nth [OF x y] grayPixel_def)
  with dl have "adaptivePixel ?gs ?w ?h (orDefault (opt_detailLevel opts) 5) x y = 0"
    by (intro adaptivePixel_transparent grayscaleOf_le)
  then show "preprocessBitmapAdvanced img opts ! (y * img_width img + x) = 0"
    by (simp add: preprocessBitmapAdvanced_nth [OF x y])
qed

theorem alpha_zero_is_background_witness:
  "(0 :: nat) < img_width \<lparr>img_width = 1, img_height = 1, img_data = [0, 0, 0, 0]\<rparr> \<and>
   (0 :: nat) < img_height \<lparr>img_width = 1, img_height = 1, img_data = [0, 0, 0, 0]\<rparr> \<and>
   rd (img_data \<lparr>img_width = 1, img_height = 1, img_data = [0, 0, 0, 0]\<rparr>) 3 = Some 0 \<and>
   preprocessBitmap \<lparr>img_width = 1, img_height = 1, img_data = [0, 0, 0, 0]\<rparr>
       \<lparr>opt_threshold = Some 128, opt_detailLevel = Some 5\<rparr> ! 0 = 0 \<and>
   preprocessBitmapAdvanced \<lparr>img_width = 1, img_height = 1, img_data = [0, 0, 0, 0]\<rparr>
       \<lparr>opt_threshold = Some 128, opt_detailLevel = Some 5\<rparr> ! 0 = 0"
  using alpha_zero_is_background [of 0 "\<lparr>img_width = 1, img_height = 1, img_data = [0, 0, 0, 0]\<rparr>" 0
      "\<lparr>opt_threshold = Some 128, opt_detailLevel = Some 5\<rparr>"]
  by (simp add: rd_def)

text \<open>
  For a threshold other than \<open>0\<close>, simple mode marks an opaque pixel as foreground exactly
  when its luminance, computed over the reals, is below the threshold.
\<close>

lemma simplePixel_threshold:
  assumes "i + 3 < length data" and "data ! (i + 3) \<noteq> 0"
  shows "simplePixel data t i = 1 \<longleftrightarrow>
           0.299 * real (data ! i) + 0.587 * real (data ! (i + 1)) + 0.114 * real (data ! (i + 2)) < t"
  using assms by (simp add: simplePixel_def rd_def Let_def)

lemma preprocessBitmap_threshold_nonzero:
  assumes x: "x < img_width img" and y: "y < img_height img"
    and len: "(y * img_width img + x) * 4 + 3 < length (img_data img)"
    and a: "img_data img ! ((y * img_width img + x) * 4 + 3) \<noteq> 0"
    and t: "opt_threshold opts = Some t" "t \<noteq> 0"
  shows "preprocessBitmap img opts ! (y * img_width img + x) = 1 \<longleftrightarrow>
           0.299 * real (img_data img ! ((y * img_width img + x) * 4))
         + 0.587 * real (img_data img ! ((y * img_width img + x) * 4 + 1))
         + 0.114 * real (img_data img ! ((y * img_width img + x) * 4 + 2)) < t"
  using simplePixel_threshold [OF len a, of t] t
  by (simp add: preprocessBitmap_nth [OF x y] orDefault_def)

text \<open>
  Claim C9 at the threshold \<open>0\<close>, which the threshold control can deliver: the falsy \<open>0\<close>
  is replaced by the default \<open>128\<close> in \<open>options.threshold || 128\<close>, so an opaque pixel of
  luminance \<open>100\<close> is marked foreground although \<open>100 < 0\<close> is false.
\<close>

theorem preprocessBitmap_threshold_zero:
  "preprocessBitmap \<lparr>img_width = 1, img_height = 1, img_data = [100, 100, 100, 255]\<rparr>
       \<lparr>opt_threshold = Some 0, opt_detailLevel = None\<rparr> = [1] \<and>
   \<not> (0.299 * real 100 + 0.587 * real 100 + 0.114 * real 100 < 0)"
  by (simp add: preprocessBitmap_def simplePixel_def rd_def orDefault_def)

section \<open>Properties of contour tracing\<close>

text \<open>
  The scan as one loop over the pixels; contours are only ever appended, and each one
  kept has more than two points.
\<close>

lemma findContours_scanOrder:
  "findContours bitmap width height
     = fst (fold (scanStep bitmap width height) (scanOrder width height)
              ([], replicate (length bitmap) 0))"
proof -
  have "(\<lambda>(x, y). scanStep bitmap width height (x, y)) = scanStep bitmap width height"
    by (simp add: fun_eq_iff)
  with fold_rows_scanOrder [of "\<lambda>x y. scanStep bitmap width height (x, y)" width height]
  show ?thesis by (simp add: findContours_def)
qed

lemma scanStep_contours:
  "fst (scanStep bitmap width height p st) = fst st \<or>
   (\<exists>contour. 2 < length contour \<and> fst (scanStep bitmap width height p st) = fst st @ [contour])"
  by (auto simp: scanStep_def Let_def split: prod.splits)

lemma fold_scanStep_mono:
  "set (fst st) \<subseteq> set (fst (fold (scanStep bitmap width height) ps st))"
proof (induction ps arbitrary: st)
  case Nil
  show ?case by simp
next
  case (Cons p ps)
  from scanStep_contours [of bitmap width height p st]
  have "set (fst st) \<subseteq> set (fst (scanStep bitmap width height p st))" by auto
  also have "\<dots> \<subseteq> set (fst (fold (scanStep bitmap width height) ps (scanStep bitmap width height p st)))"
    by (rule Cons.IH)
  finally show ?case by simp
qed

lemma fold_scanStep_long:
  "\<forall>c \<in> set (fst st). 2 < length c \<Longrightarrow>
     \<forall>c \<in> set (fst (fold (scanStep bitmap width height) ps st)). 2 < length c"
proof (induction ps arbitrary: st)
  case Nil
  then show ?case by simp
next
  case (Cons p ps)
  from scanStep_contours [of bitmap width height p st] Cons.prems
  have "\<forall>c \<in> set (fst (scanStep bitmap width height p st)). 2 < length c" by auto
  from Cons.IH [OF this] show ?case by simp
qed

lemma findContours_long: "c \<in> set (findContours bitmap width height) \<Longrightarrow> 2 < length c"
  using fold_scanStep_long [of "([], replicate (length bitmap) 0)" bitmap width height
      "scanOrder width height"]
  by (simp add: findContours_scanOrder)

text \<open>The three ways through one round of the tracing loop.\<close>

lemma traceLoop_done:
  "\<not> count < width * height \<Longrightarrow>
     traceLoop bitmap width height (cx, cy, dir, count, visited, contour) = (visited, contour, count)"
  by (subst traceLoop.simps) (simp only: if_False)

lemma traceLoop_break:
  assumes "count < width * height"
    and "tryDirections bitmap width height cx cy dir 4 = (found, cx', cy', dir')"
    and "\<not> found \<or> (length (contour @ [(cx, cy)]) > 2 \<and>
           cx' = fst ((contour @ [(cx, cy)]) ! 0) \<and> cy' = snd ((contour @ [(cx, cy)]) ! 0))"
  shows "traceLoop bitmap width height (cx, cy, dir, count, visited, contour)
           = (visited[nat (cy * int width + cx) := 1], contour @ [(cx, cy)], count)"
  by (subst traceLoop.simps) (simp only: assms if_True prod.case)

lemma traceLoop_continue:
  assumes "count < width * height"
    and "tryDirections bitmap width height cx cy dir 4 = (found, cx', cy', dir')"
    and "\<not> (\<not> found \<or> (length (contour @ [(cx, cy)]) > 2 \<and>
           cx' = fst ((contour @ [(cx, cy)]) ! 0) \<and> cy' = snd ((contour @ [(cx, cy)]) ! 0)))"
  shows "traceLoop bitmap width height (cx, cy, dir, count, visited, contour)
           = traceLoop bitmap width height
               (cx', cy', (dir' + 3) mod 4, count + 1,
                visited[nat (cy * int width + cx) := 1], contour @ [(cx, cy)])"
  by (subst traceLoop.simps) (simp only: assms(1,2) if_True prod.case if_not_P [OF assms(3)])

lemma traceLoop_count:
  "traceLoop bitmap width height (cx, cy, dir, count, visited, contour) = (visited', contour', count')
     \<Longrightarrow> count \<le> width * height
     \<Longrightarrow> count' \<le> width * height \<and>
         (count' = width * height \<longrightarrow> length contour' = length contour + (width * height - count))"
proof (induction "width * height - count" arbitrary: cx cy dir count visited contour)
  case 0
  then show ?case by (simp add: traceLoop_done)
next
  case (Suc n)
  then have lt: "count < width * height" by simp
  obtain found cx' cy' dir' where t: "tryDirections bitmap width height cx cy dir 4 = (found, cx', cy', dir')"
    by (cases "tryDirections bitmap width height cx cy dir 4")
  show ?case
  proof (cases "\<not> found \<or> (length (contour @ [(cx, cy)]) > 2 \<and>
                 cx' = fst ((contour @ [(cx, cy)]) ! 0) \<and> cy' = snd ((contour @ [(cx, cy)]) ! 0))")
    case brk: True
    from Suc.prems(1) have "count' = count"
      by (simp only: traceLoop_break [OF lt t brk] prod.inject)
    with lt show ?thesis by simp
  next
    case cont: False
    from Suc.prems(1)
    have "traceLoop bitmap width height (cx', cy', (dir' + 3) mod 4, count + 1,
                   visited[nat (cy * int width + cx) := 1], contour @ [(cx, cy)])
           = (visited', contour', count')"
      by (simp only: traceLoop_continue [OF lt t cont])
    then have tr: "traceLoop bitmap width height (cx', cy', (dir' + 3) mod 4, count + 1,
                   visited[nat (cy * int width + cx) := 1], contour @ [(cx, cy)])
           = (visited', contour', count')" .
    from Suc.hyps(2) have eq: "n = width * height - (count + 1)" by simp
    from lt have le: "count + 1 \<le> width * height" by simp
    from Suc.hyps(1) [OF eq tr le] lt show ?thesis by auto
  qed
qed

text \<open>
  Claim C4, as stated, fails. In the grid of one row \<open>1 1 1\<close> the trace from \<open>(0,0)\<close> walks
  to the right end and is on its way back when the budget of \<open>3 * 1\<close> steps is used up
  (the loop is left with \<open>count = maxSteps\<close>); the three points pushed so far are kept
  as a contour of the output.
\<close>

theorem budget_contour_discarded_counterexample:
  "traceLoop [1, 1, 1] 3 1 (0, 0, 0, 0, replicate (length [1, 1, 1 :: nat]) 0, [])
     = ([1, 1, 1], [(0, 0), (1, 0), (2, 0)], 3 * 1) \<and>
   [(0, 0), (1, 0), (2, 0)] \<in> set (findContours [1, 1, 1] 3 1)"
  by code_simp

text \<open>
  Claim C4, amended. When the trace started at a seed pixel uses up its budget of
  \<open>width * height\<close> steps, the contour has exactly \<open>width * height\<close> points and is kept in
  the output like any other contour, that is, whenever it has more than two points; the
  scan then goes on with the remaining pixels from the state the trace left.
\<close>

theorem budget_contour_kept:
  assumes order: "scanOrder width height = pre @ (x, y) # post"
    and before: "fold (scanStep bitmap width height) pre ([], replicate (length bitmap) 0)
                   = (contours, visited)"
    and seed: "rd bitmap (y * width + x) = Some 1" "rd visited (y * width + x) = Some 0"
    and trace: "traceLoop bitmap width height (int x, int y, 0, 0, visited, [])
                  = (visited', contour, count)"
    and budget: "count = width * height"
  shows "length contour = width * height \<and>
         (contour \<in> set (findContours bitmap width height) \<longleftrightarrow> 2 < width * height) \<and>
         findContours bitmap width height
           = fst (fold (scanStep bitmap width height) post
                    (if 2 < width * height then contours @ [contour] else contours, visited'))"
proof -
  from traceLoop_count [OF trace] budget have len: "length contour = width * height" by simp
  have step: "scanStep bitmap width height (x, y) (contours, visited)
                = (if 2 < width * height then contours @ [contour] else contours, visited')"
    using seed trace len by (simp add: scanStep_def)
  have fc: "findContours bitmap width height
           = fst (fold (scanStep bitmap width height) post
                    (if 2 < width * height then contours @ [contour] else contours, visited'))"
    by (simp add: findContours_scanOrder order before step)
  have "contour \<in> set (findContours bitmap width height)" if "2 < width * height"
  proof -
    from that have "contour \<in> set (fst (contours @ [contour], visited'))" by simp
    with fold_scanStep_mono [of "(contours @ [contour], visited')" bitmap width height post]
    show ?thesis using that by (auto simp: fc)
  qed
  moreover have "2 < width * height" if "contour \<in> set (findContours bitmap width height)"
    using findContours_long [OF that] len by simp
  ultimately show ?thesis using len fc by blast
qed

theorem budget_contour_kept_witness:
  "scanOrder 3 1 = [] @ (0, 0) # [(1, 0), (2, 0)] \<and>
   fold (scanStep [1, 1, 1] 3 1) [] ([], replicate (length [1, 1, 1 :: nat]) 0) = ([], [0, 0, 0]) \<and>
   rd [1, 1, 1] (0 * 3 + 0) = Some 1 \<and> rd [0, 0, 0] (0 * 3 + 0) = Some 0 \<and>
   traceLoop [1, 1, 1] 3 1 (int 0, int 0, 0, 0, [0, 0, 0], []) = ([1, 1, 1], [(0, 0), (1, 0), (2, 0)], 3) \<and>
   (3 :: nat) = 3 * 1 \<and>
   length ([(0, 0), (1, 0), (2, 0)] :: point list) = 3 * 1 \<and>
   ([(0, 0), (1, 0), (2, 0)] \<in> set (findContours [1, 1, 1] 3 1) \<longleftrightarrow> (2 :: nat) < 3 * 1)"
proof -
  have h1: "scanOrder 3 1 = [] @ (0, 0) # [(1, 0), (2, 0)]" by code_simp
  have h2: "fold (scanStep [1, 1, 1] 3 1) [] ([], replicate (length [1, 1, 1 :: nat]) 0) = ([], [0, 0, 0])"
    by code_simp
  have h3: "rd [1, 1, 1] (0 * 3 + 0) = Some 1" by code_simp
  have h4: "rd [0, 0, 0] (0 * 3 + 0) = Some 0" by code_simp
  have h5: "traceLoop [1, 1, 1] 3 1 (int 0, int 0, 0, 0, [0, 0, 0], []) = ([1, 1, 1], [(0, 0), (1, 0), (2, 0)], 3)"
    by code_simp
  have h6: "(3 :: nat) = 3 * 1" by simp
  from budget_contour_kept [OF h1 h2 h3 h4 h5 h6] h1 h2 h3 h4 h5 h6 show ?thesis by blast
qed

subsection \<open>The trace of a filled rectangle\<close>

text \<open>
  A run of the trace along a line of pixels \<open>pts 0, pts 1, \<dots>, pts n\<close>: when the search
  for the next pixel moves from each \<open>pts i\<close> to \<open>pts (i + 1)\<close> in direction \<open>d\<close>, none of
  them is the start again and the budget suffices, the loop arrives at \<open>pts n\<close> having
  pushed and marked \<open>pts 0, \<dots>, pts (n - 1)\<close>.
\<close>

lemma markVisited_snoc:
  "markVisited w (ps @ [p]) vis = (markVisited w ps vis)[nat (snd p * int w + fst p) := 1]"
  by (simp add: markVisited_def)

lemma trace_run:
  fixes pts :: "nat \<Rightarrow> point"
  assumes first: "0 < n \<Longrightarrow>
      tryDirections b w h (fst (pts 0)) (snd (pts 0)) dirIn 4 = (True, fst (pts 1), snd (pts 1), d)"
    and rest: "\<And>i. 0 < i \<Longrightarrow> i < n \<Longrightarrow>
      tryDirections b w h (fst (pts i)) (snd (pts i)) ((d + 3) mod 4) 4
        = (True, fst (pts (Suc i)), snd (pts (Suc i)), d)"
    and away: "\<And>i. i < n \<Longrightarrow> pts (Suc i) \<noteq> (c @ [pts 0]) ! 0"
    and budget: "count + n \<le> w * h"
  shows "traceLoop b w h (fst (pts 0), snd (pts 0), dirIn, count, vis, c)
           = traceLoop b w h (fst (pts n), snd (pts n), (if n = 0 then dirIn else (d + 3) mod 4),
               count + n, markVisited w (map pts [0..<n]) vis, c @ map pts [0..<n])"
  using assms
proof (induction n)
  case 0
  show ?case by (simp add: markVisited_def)
next
  case (Suc n)
  let ?dir = "if n = 0 then dirIn else (d + 3) mod 4"
  let ?c = "c @ map pts [0..<n]"
  let ?vis = "markVisited w (map pts [0..<n]) vis"
  have ih: "traceLoop b w h (fst (pts 0), snd (pts 0), dirIn, count, vis, c)
           = traceLoop b w h (fst (pts n), snd (pts n), ?dir, count + n, ?vis, ?c)"
  proof (rule Suc.IH)
    assume "0 < n"
    then show "tryDirections b w h (fst (pts 0)) (snd (pts 0)) dirIn 4 = (True, fst (pts 1), snd (pts 1), d)"
      using Suc.prems(1) by simp
  next
    fix i assume "0 < i" "i < n"
    then show "tryDirections b w h (fst (pts i)) (snd (pts i)) ((d + 3) mod 4) 4
        = (True, fst (pts (Suc i)), snd (pts (Suc i)), d)"
      using Suc.prems(2) by simp
  next
    fix i assume "i < n"
    then show "pts (Suc i) \<noteq> (c @ [pts 0]) ! 0" using Suc.prems(3) by simp
  next
    from Suc.prems(4) show "count + n \<le> w * h" by simp
  qed
  have lt: "count + n < w * h" using Suc.prems(4) by simp
  have t: "tryDirections b w h (fst (pts n)) (snd (pts n)) ?dir 4
             = (True, fst (pts (Suc n)), snd (pts (Suc n)), d)"
  proof (cases "n = 0")
    case True
    with Suc.prems(1) show ?thesis by simp
  next
    case False
    with Suc.prems(2) [of n] show ?thesis by simp
  qed
  have start: "(?c @ [(fst (pts n), snd (pts n))]) ! 0 = (c @ [pts 0]) ! 0"
    by (cases c; cases n) (simp_all add: upt_conv_Cons del: upt_Suc)
  from Suc.prems(3) [of n] have "pts (Suc n) \<noteq> (c @ [pts 0]) ! 0" by simp
  then have "\<not> (fst (pts (Suc n)) = fst ((c @ [pts 0]) ! 0) \<and> snd (pts (Suc n)) = snd ((c @ [pts 0]) ! 0))"
    by (simp add: prod_eq_iff)
  then have cont: "\<not> (\<not> True \<or> (length (?c @ [(fst (pts n), snd (pts n))]) > 2 \<and>
           fst (pts (Suc n)) = fst ((?c @ [(fst (pts n), snd (pts n))]) ! 0) \<and>
           snd (pts (Suc n)) = snd ((?c @ [(fst (pts n), snd (pts n))]) ! 0)))"
    by (simp only: start) simp
  have "traceLoop b w h (fst (pts n), snd (pts n), ?dir, count + n, ?vis, ?c)
          = traceLoop b w h (fst (pts (Suc n)), snd (pts (Suc n)), (d + 3) mod 4, count + n + 1,
              ?vis[nat (snd (pts n) * int w + fst (pts n)) := 1], ?c @ [(fst (pts n), snd (pts n))])"
    by (rule traceLoop_continue [OF lt t cont])
  with ih show ?case by (simp add: markVisited_snoc)
qed

text \<open>In the grid of a filled rectangle, the foreground test is membership in the rectangle.\<close>

lemma rect_isForeground:
  assumes R: "filledRectangle b w h x0 y0 W H"
  shows "isForeground b w h nx ny \<longleftrightarrow>
           int x0 \<le> nx \<and> nx < int x0 + int W \<and> int y0 \<le> ny \<and> ny < int y0 + int H"
proof (cases "0 \<le> nx \<and> nx < int w \<and> 0 \<le> ny \<and> ny < int h")
  case False
  moreover from R have "x0 + W \<le> w" "y0 + H \<le> h" by (simp_all add: filledRectangle_def)
  ultimately show ?thesis by (auto simp: isForeground_def)
next
  case True
  define x y where "x = nat nx" and "y = nat ny"
  with True have xy: "x < w" "y < h" "nx = int x" "ny = int y" by auto
  have idx: "nat (int y * int w + int x) = y * w + x"
    by (simp add: nat_add_distrib nat_mult_distrib)
  from xy have "y * w + x < w * h" by (intro cell_index_less)
  with R have len: "y * w + x < length b" by (simp add: filledRectangle_def)
  from R xy have "b ! (y * w + x) = (if x0 \<le> x \<and> x < x0 + W \<and> y0 \<le> y \<and> y < y0 + H then 1 else 0)"
    by (simp add: filledRectangle_def)
  with len True show ?thesis
    by (auto simp: isForeground_def rd_def idx xy)
qed

lemma four_Suc: "(4 :: nat) = Suc (Suc (Suc (Suc 0)))"
  by simp

text \<open>
  The search for the next pixel on the four sides of the rectangle: to the right on the
  top row, down on the right column, to the left on the bottom row, up on the left
  column. The first direction tried points out of the rectangle on every side.
\<close>

lemma try_right:
  assumes R: "filledRectangle b w h x0 y0 W H" and i: "i + 1 < W" and H: "1 \<le> H"
    and d: "dir = 0 \<or> dir = 3"
  shows "tryDirections b w h (int x0 + int i) (int y0) dir 4 = (True, int x0 + int (Suc i), int y0, 0)"
  using d
proof
  assume "dir = 0"
  with i H show ?thesis unfolding four_Suc
    by (simp add: Let_def rect_isForeground [OF R] dirDx_def dirDy_def)
next
  assume "dir = 3"
  with i H show ?thesis unfolding four_Suc
    by (simp add: Let_def rect_isForeground [OF R] dirDx_def dirDy_def)
qed

lemma try_down:
  assumes R: "filledRectangle b w h x0 y0 W H" and j: "j + 1 < H" and W: "1 \<le> W"
    and d: "dir = 3 \<and> j = 0 \<or> dir = 0"
  shows "tryDirections b w h (int x0 + int W - 1) (int y0 + int j) dir 4
           = (True, int x0 + int W - 1, int y0 + int (Suc j), 1)"
  using d
proof
  assume "dir = 3 \<and> j = 0"
  with j W show ?thesis unfolding four_Suc
    by (simp add: Let_def rect_isForeground [OF R] dirDx_def dirDy_def)
next
  assume "dir = 0"
  with j W show ?thesis unfolding four_Suc
    by (simp add: Let_def rect_isForeground [OF R] dirDx_def dirDy_def)
qed

lemma try_left:
  assumes R: "filledRectangle b w h x0 y0 W H" and i: "i + 1 < W" and H: "1 \<le> H"
    and d: "dir = 0 \<and> i = 0 \<or> dir = 1"
  shows "tryDirections b w h (int x0 + int W - 1 - int i) (int y0 + int H - 1) dir 4
           = (True, int x0 + int W - 1 - int (Suc i), int y0 + int H - 1, 2)"
  using d
proof
  assume "dir = 0 \<and> i = 0"
  with i H show ?thesis unfolding four_Suc
    by (simp add: Let_def rect_isForeground [OF R] dirDx_def dirDy_def)
next
  assume "dir = 1"
  with i H show ?thesis unfolding four_Suc
    by (simp add: Let_def rect_isForeground [OF R] dirDx_def dirDy_def)
qed

lemma try_up:
  assumes R: "filledRectangle b w h x0 y0 W H" and j: "j + 1 < H" and W: "1 \<le> W"
    and d: "dir = 1 \<and> j = 0 \<or> dir = 2"
  shows "tryDirections b w h (int x0) (int y0 + int H - 1 - int j) dir 4
           = (True, int x0, int y0 + int H - 1 - int (Suc j), 3)"
  using d
proof
  assume "dir = 1 \<and> j = 0"
  with j W show ?thesis unfolding four_Suc
    by (simp add: Let_def rect_isForeground [OF R] dirDx_def dirDy_def)
next
  assume "dir = 2"
  with j W show ?thesis unfolding four_Suc
    by (simp add: Let_def rect_isForeground [OF R] dirDx_def dirDy_def)
qed

lemma markVisited_append:
  "markVisited w (ps @ qs) vis = markVisited w qs (markVisited w ps vis)"
  by (simp add: markVisited_def)

lemma perimeter_budget:
  assumes "2 \<le> W" "2 \<le> H" "W \<le> w" "H \<le> (h :: nat)"
  shows "2 * W + 2 * H \<le> w * h + 4"
proof -
  obtain a b where ab: "W = a + 2" "H = b + 2"
    using assms(1,2) by (metis add.commute le_Suc_ex)
  have "2 * W + 2 * H \<le> W * H + 4" by (simp add: ab algebra_simps)
  also from assms(3,4) have "W * H \<le> w * h" by (rule mult_le_mono)
  finally show ?thesis by simp
qed

text \<open>
  From the top-left corner the trace walks the boundary once and stops when the pixel
  below the corner finds the corner again, for every rectangle of at least two columns
  and two rows.
\<close>

lemma trace_rectangle:
  assumes R: "filledRectangle b w h x0 y0 W H" and W: "2 \<le> W" and H: "2 \<le> H"
  shows "traceLoop b w h (int x0, int y0, 0, 0, vis, [])
           = (markVisited w (rectanglePerimeter x0 y0 W H) vis, rectanglePerimeter x0 y0 W H,
              2 * W + 2 * H - 5)"
proof -
  define ptsA :: "nat \<Rightarrow> point" where "ptsA = (\<lambda>i. (int x0 + int i, int y0))"
  define ptsB :: "nat \<Rightarrow> point" where "ptsB = (\<lambda>j. (int x0 + int W - 1, int y0 + int j))"
  define ptsC :: "nat \<Rightarrow> point" where "ptsC = (\<lambda>i. (int x0 + int W - 1 - int i, int y0 + int H - 1))"
  define ptsD :: "nat \<Rightarrow> point" where "ptsD = (\<lambda>j. (int x0, int y0 + int H - 1 - int j))"
  define A where "A = map ptsA [0..<W - 1]"
  define B where "B = map ptsB [0..<H - 1]"
  define C where "C = map ptsC [0..<W - 1]"
  define D' where "D' = map ptsD [0..<H - 2]"
  from R have inside: "W \<le> w" "H \<le> h" by (simp_all add: filledRectangle_def)
  from perimeter_budget [OF W H inside] have budget: "2 * W + 2 * H \<le> w * h + 4" .
  have A0: "A ! 0 = (int x0, int y0)" and Ane: "A \<noteq> []"
    using W by (simp_all add: A_def ptsA_def upt_conv_Cons del: upt_Suc)
  \<comment> \<open>top row, to the right\<close>
  have stepA: "traceLoop b w h (fst (ptsA 0), snd (ptsA 0), 0, 0, vis, [])
      = traceLoop b w h (fst (ptsA (W - 1)), snd (ptsA (W - 1)),
          (if W - 1 = 0 then 0 else (0 + 3) mod 4), 0 + (W - 1),
          markVisited w (map ptsA [0..<W - 1]) vis, [] @ map ptsA [0..<W - 1])"
  proof (rule trace_run)
    show "tryDirections b w h (fst (ptsA 0)) (snd (ptsA 0)) 0 4 = (True, fst (ptsA 1), snd (ptsA 1), 0)"
      using try_right [OF R, of 0 0] W H by (simp add: ptsA_def)
  next
    fix i assume "0 < i" "i < W - 1"
    then show "tryDirections b w h (fst (ptsA i)) (snd (ptsA i)) ((0 + 3) mod 4) 4
        = (True, fst (ptsA (Suc i)), snd (ptsA (Suc i)), 0)"
      using try_right [OF R, of i 3] H by (simp add: ptsA_def)
  next
    fix i show "ptsA (Suc i) \<noteq> ([] @ [ptsA 0]) ! 0" by (simp add: ptsA_def)
  next
    from budget W H show "0 + (W - 1) \<le> w * h" by simp
  qed
  \<comment> \<open>right column, downwards\<close>
  have stepB: "traceLoop b w h (fst (ptsB 0), snd (ptsB 0), 3, W - 1, markVisited w A vis, A)
      = traceLoop b w h (fst (ptsB (H - 1)), snd (ptsB (H - 1)),
          (if H - 1 = 0 then 3 else (1 + 3) mod 4), (W - 1) + (H - 1),
          markVisited w (map ptsB [0..<H - 1]) (markVisited w A vis), A @ map ptsB [0..<H - 1])"
  proof (rule trace_run)
    show "tryDirections b w h (fst (ptsB 0)) (snd (ptsB 0)) 3 4 = (True, fst (ptsB 1), snd (ptsB 1), 1)"
      using try_down [OF R, of 0 3] W H by (simp add: ptsB_def)
  next
    fix j assume "0 < j" "j < H - 1"
    then show "tryDirections b w h (fst (ptsB j)) (snd (ptsB j)) ((1 + 3) mod 4) 4
        = (True, fst (ptsB (Suc j)), snd (ptsB (Suc j)), 1)"
      using try_down [OF R, of j 0] W by (simp add: ptsB_def)
  next
    fix j show "ptsB (Suc j) \<noteq> (A @ [ptsB 0]) ! 0"
      using W Ane A0 by (simp add: ptsB_def nth_append)
  next
    from budget W H show "(W - 1) + (H - 1) \<le> w * h" by simp
  qed
  \<comment> \<open>bottom row, to the left\<close>
  have stepC: "traceLoop b w h (fst (ptsC 0), snd (ptsC 0), 0, (W - 1) + (H - 1),
          markVisited w B (markVisited w A vis), A @ B)
      = traceLoop b w h (fst (ptsC (W - 1)), snd (ptsC (W - 1)),
          (if W - 1 = 0 then 0 else (2 + 3) mod 4), (W - 1) + (H - 1) + (W - 1),
          markVisited w (map ptsC [0..<W - 1]) (markVisited w B (markVisited w A vis)),
          (A @ B) @ map ptsC [0..<W - 1])"
  proof (rule trace_run)
    show "tryDirections b w h (fst (ptsC 0)) (snd (ptsC 0)) 0 4 = (True, fst (ptsC 1), snd (ptsC 1), 2)"
      using try_left [OF R, of 0 0] W H by (simp add: ptsC_def)
  next
    fix i assume "0 < i" "i < W - 1"
    then show "tryDirections b w h (fst (ptsC i)) (snd (ptsC i)) ((2 + 3) mod 4) 4
        = (True, fst (ptsC (Suc i)), snd (ptsC (Suc i)), 2)"
      using try_left [OF R, of i 1] H by (simp add: ptsC_def)
  next
    fix i show "ptsC (Suc i) \<noteq> ((A @ B) @ [ptsC 0]) ! 0"
      using H Ane A0 by (simp add: ptsC_def nth_append)
  next
    from budget W H show "(W - 1) + (H - 1) + (W - 1) \<le> w * h" by simp
  qed
  \<comment> \<open>left column, upwards, as far as the pixel below the start\<close>
  have stepD: "traceLoop b w h (fst (ptsD 0), snd (ptsD 0), 1, (W - 1) + (H - 1) + (W - 1),
          markVisited w C (markVisited w B (markVisited w A vis)), A @ B @ C)
      = traceLoop b w h (fst (ptsD (H - 2)), snd (ptsD (H - 2)),
          (if H - 2 = 0 then 1 else (3 + 3) mod 4), (W - 1) + (H - 1) + (W - 1) + (H - 2),
          markVisited w (map ptsD [0..<H - 2]) (markVisited w C (markVisited w B (markVisited w A vis))),
          (A @ B @ C) @ map ptsD [0..<H - 2])"
  proof (rule trace_run)
    assume "0 < H - 2"
    then show "tryDirections b w h (fst (ptsD 0)) (snd (ptsD 0)) 1 4 = (True, fst (ptsD 1), snd (ptsD 1), 3)"
      using try_up [OF R, of 0 1] W by (simp add: ptsD_def)
  next
    fix j assume "0 < j" "j < H - 2"
    then show "tryDirections b w h (fst (ptsD j)) (snd (ptsD j)) ((3 + 3) mod 4) 4
        = (True, fst (ptsD (Suc j)), snd (ptsD (Suc j)), 3)"
      using try_up [OF R, of j 2] W by (simp add: ptsD_def)
  next
    fix j assume "j < H - 2"
    then show "ptsD (Suc j) \<noteq> ((A @ B @ C) @ [ptsD 0]) ! 0"
      using Ane A0 by (simp add: ptsD_def nth_append)
  next
    from budget W H show "(W - 1) + (H - 1) + (W - 1) + (H - 2) \<le> w * h" by simp
  qed
  \<comment> \<open>the last step finds the start again\<close>
  let ?dir = "if H - 2 = 0 then 1 else (3 + 3) mod 4 :: nat"
  let ?count = "(W - 1) + (H - 1) + (W - 1) + (H - 2)"
  let ?vis = "markVisited w D' (markVisited w C (markVisited w B (markVisited w A vis)))"
  let ?c = "(A @ B @ C) @ D'"
  have last: "traceLoop b w h (fst (ptsD (H - 2)), snd (ptsD (H - 2)), ?dir, ?count, ?vis, ?c)
      = (?vis[nat (snd (ptsD (H - 2)) * int w + fst (ptsD (H - 2))) := 1],
         ?c @ [(fst (ptsD (H - 2)), snd (ptsD (H - 2)))], ?count)"
  proof (rule traceLoop_break)
    from budget W H show "?count < w * h" by simp
  next
    show "tryDirections b w h (fst (ptsD (H - 2))) (snd (ptsD (H - 2))) ?dir 4
            = (True, int x0, int y0, 3)"
      using try_up [OF R, of "H - 2" ?dir] W H by (auto simp: ptsD_def of_nat_diff)
  next
    have "(?c @ [(fst (ptsD (H - 2)), snd (ptsD (H - 2)))]) ! 0 = (int x0, int y0)"
      using Ane A0 by (simp add: nth_append)
    moreover have "2 < length (?c @ [(fst (ptsD (H - 2)), snd (ptsD (H - 2)))])"
      using W H by (simp add: A_def B_def)
    ultimately show "\<not> True \<or> (length (?c @ [(fst (ptsD (H - 2)), snd (ptsD (H - 2)))]) > 2 \<and>
           int x0 = fst ((?c @ [(fst (ptsD (H - 2)), snd (ptsD (H - 2)))]) ! 0) \<and>
           int y0 = snd ((?c @ [(fst (ptsD (H - 2)), snd (ptsD (H - 2)))]) ! 0))"
      by simp
  qed
  have joinAB: "(fst (ptsA (W - 1)), snd (ptsA (W - 1))) = (fst (ptsB 0), snd (ptsB 0))"
    using W by (simp add: ptsA_def ptsB_def of_nat_diff)
  have joinBC: "(fst (ptsB (H - 1)), snd (ptsB (H - 1))) = (fst (ptsC 0), snd (ptsC 0))"
    using H by (simp add: ptsB_def ptsC_def of_nat_diff)
  have joinCD: "(fst (ptsC (W - 1)), snd (ptsC (W - 1))) = (fst (ptsD 0), snd (ptsD 0))"
    using W by (simp add: ptsC_def ptsD_def of_nat_diff)
  have DD: "D' @ [ptsD (H - 2)] = map ptsD [0..<H - 1]"
  proof -
    from H have "H - 1 = Suc (H - 2)" by simp
    then show ?thesis by (simp add: D'_def)
  qed
  have P: "rectanglePerimeter x0 y0 W H = A @ B @ C @ D' @ [ptsD (H - 2)]"
    by (simp only: DD) (simp add: rectanglePerimeter_def A_def B_def C_def ptsA_def ptsB_def ptsC_def ptsD_def)
  have lists: "map ptsA [0..<W - 1] = A" "map ptsB [0..<H - 1] = B" "map ptsC [0..<W - 1] = C"
      "map ptsD [0..<H - 2] = D'"
    by (simp_all only: A_def B_def C_def D'_def)
  have dirs: "(if W - 1 = 0 then 0 else (0 + 3) mod 4) = (3 :: nat)"
      "(if H - 1 = 0 then 3 else (1 + 3) mod 4) = (0 :: nat)"
      "(if W - 1 = 0 then 0 else (2 + 3) mod 4) = (1 :: nat)"
    using W H by simp_all
  have ends: "fst (ptsA 0) = int x0" "snd (ptsA 0) = int y0"
      "fst (ptsA (W - 1)) = fst (ptsB 0)" "snd (ptsA (W - 1)) = snd (ptsB 0)"
      "fst (ptsB (H - 1)) = fst (ptsC 0)" "snd (ptsB (H - 1)) = snd (ptsC 0)"
      "fst (ptsC (W - 1)) = fst (ptsD 0)" "snd (ptsC (W - 1)) = snd (ptsD 0)"
    using W H by (simp_all add: ptsA_def ptsB_def ptsC_def ptsD_def of_nat_diff)
  have "traceLoop b w h (int x0, int y0, 0, 0, vis, [])
          = traceLoop b w h (fst (ptsB 0), snd (ptsB 0), 3, W - 1, markVisited w A vis, A)"
    using stepA unfolding lists dirs ends append_Nil add_0 [of "W - 1"] .
  also have "\<dots> = traceLoop b w h (fst (ptsC 0), snd (ptsC 0), 0, (W - 1) + (H - 1),
          markVisited w B (markVisited w A vis), A @ B)"
    using stepB unfolding lists dirs ends .
  also have "\<dots> = traceLoop b w h (fst (ptsD 0), snd (ptsD 0), 1, (W - 1) + (H - 1) + (W - 1),
          markVisited w C (markVisited w B (markVisited w A vis)), A @ B @ C)"
    using stepC unfolding lists dirs ends append_assoc .
  also have "\<dots> = traceLoop b w h (fst (ptsD (H - 2)), snd (ptsD (H - 2)), ?dir, ?count, ?vis, ?c)"
    using stepD unfolding lists .
  also note last
  finally have "traceLoop b w h (int x0, int y0, 0, 0, vis, [])
      = (markVisited w (D' @ [ptsD (H - 2)]) (markVisited w C (markVisited w B (markVisited w A vis))),
         A @ B @ C @ D' @ [ptsD (H - 2)], ?count)"
    by (simp add: markVisited_snoc)
  moreover have "?count = 2 * W + 2 * H - 5" using W H by simp
  ultimately show ?thesis by (simp add: P markVisited_append)
qed

text \<open>
  The scan around the seed: pixels that are background or already visited leave the state
  as it is, and every pixel of a rectangle without interior is on the walked boundary.
\<close>

lemma scanStep_skip:
  "\<not> (rd b (snd p * w + fst p) = Some 1 \<and> rd vis (snd p * w + fst p) = Some 0) \<Longrightarrow>
     scanStep b w h p (cs, vis) = (cs, vis)"
  by (auto simp: scanStep_def Let_def)

lemma fold_scanStep_skip:
  "\<forall>p \<in> set ps. \<not> (rd b (snd p * w + fst p) = Some 1 \<and> rd vis (snd p * w + fst p) = Some 0) \<Longrightarrow>
     fold (scanStep b w h) ps (cs, vis) = (cs, vis)"
  by (induction ps) (simp_all add: scanStep_skip)

lemma upt_split: "i < n \<Longrightarrow> [0..<n] = [0..<i] @ i # [Suc i..<n]"
proof -
  assume "i < n"
  then have "[0..<n] = [0..<i] @ [i..<n]"
    using upt_add_eq_append [of 0 i "n - i"] by simp
  with \<open>i < n\<close> show ?thesis by (simp add: upt_conv_Cons)
qed

lemma scanOrder_split:
  assumes "x0 < w" "y0 < h"
  shows "scanOrder w h
           = (concat (map (\<lambda>y. map (\<lambda>x. (x, y)) [0..<w]) [0..<y0]) @ map (\<lambda>x. (x, y0)) [0..<x0])
             @ (x0, y0)
             # (map (\<lambda>x. (x, y0)) [Suc x0..<w]
                @ concat (map (\<lambda>y. map (\<lambda>x. (x, y)) [0..<w]) [Suc y0..<h]))"
proof -
  have "scanOrder w h = concat (map (\<lambda>y. map (\<lambda>x. (x, y)) [0..<w]) ([0..<y0] @ y0 # [Suc y0..<h]))"
    using upt_split [OF assms(2)] by (simp add: scanOrder_def)
  also have "\<dots> = concat (map (\<lambda>y. map (\<lambda>x. (x, y)) [0..<w]) [0..<y0])
                 @ map (\<lambda>x. (x, y0)) [0..<w]
                 @ concat (map (\<lambda>y. map (\<lambda>x. (x, y)) [0..<w]) [Suc y0..<h])"
    by simp
  also have "map (\<lambda>x. (x, y0)) [0..<w]
               = map (\<lambda>x. (x, y0)) [0..<x0] @ (x0, y0) # map (\<lambda>x. (x, y0)) [Suc x0..<w]"
    using upt_split [OF assms(1)] by (metis list.simps(9) map_append)
  finally show ?thesis by simp
qed

lemma length_markVisited: "length (markVisited w ps vis) = length vis"
  unfolding markVisited_def by (induction ps arbitrary: vis) simp_all

lemma markVisited_nth:
  "p \<in> set ps \<Longrightarrow> nat (snd p * int w + fst p) < length vis \<Longrightarrow>
     markVisited w ps vis ! nat (snd p * int w + fst p) = 1"
proof (induction ps rule: rev_induct)
  case Nil
  then show ?case by simp
next
  case (snoc q ps)
  show ?case
  proof (cases "nat (snd q * int w + fst q) = nat (snd p * int w + fst p)")
    case True
    with snoc.prems(2) show ?thesis by (simp add: markVisited_snoc length_markVisited)
  next
    case False
    then have "p \<noteq> q" by auto
    with snoc.prems have "p \<in> set ps" by simp
    from snoc.IH [OF this snoc.prems(2)] False show ?thesis by (simp add: markVisited_snoc)
  qed
qed

lemma boundary_on_perimeter:
  assumes W: "2 \<le> W" and H: "2 \<le> H"
    and x: "x0 \<le> x" "x < x0 + W" and y: "y0 \<le> y" "y < y0 + H"
    and boundary: "x = x0 \<or> x = x0 + W - 1 \<or> y = y0 \<or> y = y0 + H - 1"
  shows "(int x, int y) \<in> set (rectanglePerimeter x0 y0 W H)"
proof -
  have A: "(int x, int y) \<in> set (rectanglePerimeter x0 y0 W H)" if "y = y0" "x < x0 + W - 1"
  proof -
    from that x have "x - x0 \<in> set [0..<W - 1]" and "(int x, int y) = (int x0 + int (x - x0), int y0)"
      by auto
    then show ?thesis unfolding rectanglePerimeter_def set_append set_map by blast
  qed
  have B: "(int x, int y) \<in> set (rectanglePerimeter x0 y0 W H)" if "x = x0 + W - 1" "y < y0 + H - 1"
  proof -
    from that y W have "y - y0 \<in> set [0..<H - 1]"
      and "(int x, int y) = (int x0 + int W - 1, int y0 + int (y - y0))"
      by (auto simp: of_nat_diff)
    then show ?thesis unfolding rectanglePerimeter_def set_append set_map by blast
  qed
  have C: "(int x, int y) \<in> set (rectanglePerimeter x0 y0 W H)" if "y = y0 + H - 1" "x0 < x"
  proof -
    from that x H have "x0 + W - 1 - x \<in> set [0..<W - 1]"
      and "(int x, int y) = (int x0 + int W - 1 - int (x0 + W - 1 - x), int y0 + int H - 1)"
      by (auto simp: of_nat_diff)
    then show ?thesis unfolding rectanglePerimeter_def set_append set_map by blast
  qed
  have D: "(int x, int y) \<in> set (rectanglePerimeter x0 y0 W H)" if "x = x0" "y0 < y"
  proof -
    from that y have "y0 + H - 1 - y \<in> set [0..<H - 1]"
      and "(int x, int y) = (int x0, int y0 + int H - 1 - int (y0 + H - 1 - y))"
      by (auto simp: of_nat_diff)
    then show ?thesis unfolding rectanglePerimeter_def set_append set_map by blast
  qed
  from boundary x y W H consider
      (a) "y = y0" "x < x0 + W - 1" | (b) "x = x0 + W - 1" "y < y0 + H - 1"
    | (c) "y = y0 + H - 1" "x0 < x" | (d) "x = x0" "y0 < y"
    by arith
  then show ?thesis
  proof cases
    case a then show ?thesis by (rule A)
  next
    case b then show ?thesis by (rule B)
  next
    case c then show ?thesis by (rule C)
  next
    case d then show ?thesis by (rule D)
  qed
qed

lemma thin_rectangle_perimeter:
  assumes W: "2 \<le> W" and H: "2 \<le> H" and thin: "W = 2 \<or> H = 2"
    and x: "x0 \<le> x" "x < x0 + W" and y: "y0 \<le> y" "y < y0 + H"
  shows "(int x, int y) \<in> set (rectanglePerimeter x0 y0 W H)"
proof -
  from thin x y have "x = x0 \<or> x = x0 + W - 1 \<or> y = y0 \<or> y = y0 + H - 1"
    by auto
  with W H x y show ?thesis by (rule boundary_on_perimeter)
qed

lemma rect_rd:
  assumes R: "filledRectangle b w h x0 y0 W H" and xy: "x < w" "y < h"
  shows "rd b (y * w + x) = Some (if x0 \<le> x \<and> x < x0 + W \<and> y0 \<le> y \<and> y < y0 + H then 1 else 0)"
proof -
  from xy have "y * w + x < w * h" by (rule cell_index_less)
  with R xy show ?thesis by (simp add: rd_def filledRectangle_def)
qed

lemma length_rectanglePerimeter:
  "length (rectanglePerimeter x0 y0 W H) = 2 * (W - 1) + 2 * (H - 1)"
  by (simp add: rectanglePerimeter_def)

text \<open>
  Claim C2, amended. For every occupancy grid whose foreground is one filled \<open>W \<times> H\<close>
  rectangle with \<open>W \<ge> 2\<close>, \<open>H \<ge> 2\<close> and \<open>W = 2\<close> or \<open>H = 2\<close> (every pixel of the rectangle
  lies on its boundary), \<open>findContours\<close> returns exactly one contour, the boundary of the
  rectangle walked from its top-left corner.
\<close>

theorem thin_rectangle_one_contour:
  assumes R: "filledRectangle bitmap width height x0 y0 W H"
    and W: "2 \<le> W" and H: "2 \<le> H" and thin: "W = 2 \<or> H = 2"
  shows "findContours bitmap width height = [rectanglePerimeter x0 y0 W H] \<and>
         length (findContours bitmap width height) = 1"
proof -
  let ?P = "rectanglePerimeter x0 y0 W H"
  let ?zeros = "replicate (length bitmap) (0 :: nat)"
  let ?vis = "markVisited width ?P ?zeros"
  define before where
    "before = concat (map (\<lambda>y. map (\<lambda>x. (x, y)) [0..<width]) [0..<y0]) @ map (\<lambda>x. (x, y0)) [0..<x0]"
  define after where
    "after = map (\<lambda>x. (x, y0)) [Suc x0..<width]
               @ concat (map (\<lambda>y. map (\<lambda>x. (x, y)) [0..<width]) [Suc y0..<height])"
  from R W H have in_grid: "x0 < width" "y0 < height" and len: "length bitmap = width * height"
    by (simp_all add: filledRectangle_def)
  have order: "scanOrder width height = before @ (x0, y0) # after"
    unfolding before_def after_def using in_grid by (rule scanOrder_split)
  have pre: "fold (scanStep bitmap width height) before ([], ?zeros) = ([], ?zeros)"
  proof (rule fold_scanStep_skip, rule ballI)
    fix p assume "p \<in> set before"
    then have "fst p < width" and "snd p < height" and "snd p < y0 \<or> fst p < x0"
      using in_grid by (auto simp: before_def)
    with rect_rd [OF R, of "fst p" "snd p"]
    show "\<not> (rd bitmap (snd p * width + fst p) = Some 1 \<and> rd ?zeros (snd p * width + fst p) = Some 0)"
      by auto
  qed
  have seed: "scanStep bitmap width height (x0, y0) ([], ?zeros) = ([?P], ?vis)"
  proof -
    from rect_rd [OF R in_grid] W H have "rd bitmap (y0 * width + x0) = Some 1" by simp
    moreover from in_grid have "y0 * width + x0 < width * height" by (rule cell_index_less)
    then have "rd ?zeros (y0 * width + x0) = Some 0" by (simp add: rd_def len)
    moreover from W H have "2 < length ?P" by (simp add: length_rectanglePerimeter)
    ultimately show ?thesis
      by (simp add: scanStep_def trace_rectangle [OF R W H])
  qed
  have post: "fold (scanStep bitmap width height) after ([?P], ?vis) = ([?P], ?vis)"
  proof (rule fold_scanStep_skip, rule ballI)
    fix p assume "p \<in> set after"
    then have p: "fst p < width" "snd p < height" using in_grid by (auto simp: after_def)
    show "\<not> (rd bitmap (snd p * width + fst p) = Some 1 \<and> rd ?vis (snd p * width + fst p) = Some 0)"
    proof (cases "x0 \<le> fst p \<and> fst p < x0 + W \<and> y0 \<le> snd p \<and> snd p < y0 + H")
      case False
      with rect_rd [OF R p] show ?thesis by simp
    next
      case True
      then have "(int (fst p), int (snd p)) \<in> set ?P"
        by (intro thin_rectangle_perimeter [OF W H thin]) simp_all
      moreover have idx: "nat (int (snd p) * int width + int (fst p)) = snd p * width + fst p"
        by (simp add: nat_add_distrib nat_mult_distrib)
      moreover from p have lt: "snd p * width + fst p < width * height" by (rule cell_index_less)
      ultimately have "?vis ! (snd p * width + fst p) = 1"
        using markVisited_nth [of "(int (fst p), int (snd p))" ?P width ?zeros] len by simp
      with lt have "rd ?vis (snd p * width + fst p) = Some 1"
        by (simp add: rd_def length_markVisited len)
      then show ?thesis by simp
    qed
  qed
  have "fold (scanStep bitmap width height) (before @ (x0, y0) # after) ([], ?zeros)
          = fold (scanStep bitmap width height) after
              (scanStep bitmap width height (x0, y0)
                 (fold (scanStep bitmap width height) before ([], ?zeros)))"
    by simp
  also have "\<dots> = ([?P], ?vis)" by (simp only: pre seed post)
  finally have "findContours bitmap width height = [?P]"
    by (simp add: findContours_scanOrder order)
  then show ?thesis by simp
qed

theorem thin_rectangle_one_contour_witness:
  "filledRectangle [1, 1, 1, 1] 2 2 0 0 2 2 \<and> (2 :: nat) \<le> 2 \<and>
   findContours [1, 1, 1, 1] 2 2 = [rectanglePerimeter 0 0 2 2] \<and>
   length (findContours [1, 1, 1, 1] 2 2) = 1"
proof -
  have h: "filledRectangle [1, 1, 1, 1] 2 2 0 0 2 2" by code_simp
  from thin_rectangle_one_contour [OF h] h show ?thesis by simp
qed

text \<open>
  Claim C2, as stated, fails: for the filled \<open>3 \<times> 3\<close> square the trace of the boundary
  leaves the centre pixel unvisited, the scan starts a second trace there, and the
  output has two contours.
\<close>

theorem rectangle_one_contour_counterexample:
  "filledRectangle [1, 1, 1, 1, 1, 1, 1, 1, 1] 3 3 0 0 3 3 \<and> (2 :: nat) \<le> 3 \<and>
   findContours [1, 1, 1, 1, 1, 1, 1, 1, 1] 3 3
     = [[(0, 0), (1, 0), (2, 0), (2, 1), (2, 2), (1, 2), (0, 2), (0, 1)],
        [(1, 1), (2, 1), (2, 0), (1, 0)]] \<and>
   length (findContours [1, 1, 1, 1, 1, 1, 1, 1, 1] 3 3) = 2"
  by code_simp

subsection \<open>Rectangles with interior pixels\<close>

text \<open>
  The restriction to rectangles without interior is needed for every larger rectangle,
  not only for the \<open>3 \<times> 3\<close> square: with \<open>W \<ge> 3\<close> and \<open>H \<ge> 3\<close> the pixel diagonally below
  the top-left corner is not on the walked boundary, so it is still unvisited when the
  scan reaches it, and the trace started there closes after four points.
\<close>

lemma fold_scanStep_prefix:
  "\<exists>more. fst (fold (scanStep b w h) ps st) = fst st @ more"
proof (induction ps arbitrary: st)
  case Nil
  show ?case by simp
next
  case (Cons p ps)
  from Cons.IH [of "scanStep b w h p st"] obtain more
    where "fst (fold (scanStep b w h) ps (scanStep b w h p st)) = fst (scanStep b w h p st) @ more"
    by blast
  with scanStep_contours [of b w h p st] show ?case by auto
qed

lemma markVisited_other:
  "\<forall>p \<in> set ps. nat (snd p * int w + fst p) \<noteq> k \<Longrightarrow> markVisited w ps vis ! k = vis ! k"
proof (induction ps rule: rev_induct)
  case Nil
  show ?case by (simp add: markVisited_def)
next
  case (snoc q ps)
  then show ?case by (simp add: markVisited_snoc)
qed

lemma perimeter_points:
  assumes W: "2 \<le> W" and H: "2 \<le> H" and p: "p \<in> set (rectanglePerimeter x0 y0 W H)"
  shows "int x0 \<le> fst p \<and> fst p < int x0 + int W \<and> int y0 \<le> snd p \<and> snd p < int y0 + int H \<and>
         (fst p = int x0 \<or> fst p = int x0 + int W - 1 \<or> snd p = int y0 \<or> snd p = int y0 + int H - 1)"
  using p W H unfolding rectanglePerimeter_def set_append set_map by auto

lemma interior_not_marked:
  assumes R: "filledRectangle b w h x0 y0 W H" and W: "3 \<le> W" and H: "3 \<le> H"
  shows "markVisited w (rectanglePerimeter x0 y0 W H) vis ! (Suc y0 * w + Suc x0) = vis ! (Suc y0 * w + Suc x0)"
proof (rule markVisited_other, rule ballI)
  fix p assume p: "p \<in> set (rectanglePerimeter x0 y0 W H)"
  from R have grid: "x0 + W \<le> w" by (simp add: filledRectangle_def)
  from W H have "2 \<le> W" "2 \<le> H" by simp_all
  from perimeter_points [OF this p]
  have rng: "int x0 \<le> fst p" "fst p < int x0 + int W" "int y0 \<le> snd p" "snd p < int y0 + int H"
    and bd: "fst p = int x0 \<or> fst p = int x0 + int W - 1 \<or> snd p = int y0 \<or> snd p = int y0 + int H - 1"
    by simp_all
  define x y where "x = nat (fst p)" and "y = nat (snd p)"
  with rng have xy: "fst p = int x" "snd p = int y" by simp_all
  from rng grid have xw: "x < w" by (simp add: x_def)
  have idx: "nat (snd p * int w + fst p) = y * w + x"
    by (simp add: xy nat_add_distrib nat_mult_distrib)
  show "nat (snd p * int w + fst p) \<noteq> Suc y0 * w + Suc x0"
  proof
    assume "nat (snd p * int w + fst p) = Suc y0 * w + Suc x0"
    with idx have "y * w + x = Suc y0 * w + Suc x0" by simp
    moreover from grid W have "Suc x0 < w" by simp
    ultimately have "x = Suc x0 \<and> y = Suc y0" using xw by (intro cell_index_inj)
    with bd xy W H show False by simp
  qed
qed

lemma traceLoop_unfold:
  "count < w * h \<Longrightarrow>
     traceLoop b w h (cx, cy, dir, count, vis, c)
       = (case tryDirections b w h cx cy dir 4 of
            (found, cx', cy', dir') \<Rightarrow>
              if \<not> found \<or> (length (c @ [(cx, cy)]) > 2 \<and>
                    cx' = fst ((c @ [(cx, cy)]) ! 0) \<and> cy' = snd ((c @ [(cx, cy)]) ! 0))
              then (vis[nat (cy * int w + cx) := 1], c @ [(cx, cy)], count)
              else traceLoop b w h
                     (cx', cy', (dir' + 3) mod 4, count + 1,
                      vis[nat (cy * int w + cx) := 1], c @ [(cx, cy)]))"
  by (subst traceLoop.simps) (simp only: if_True)

lemma trace_interior:
  assumes R: "filledRectangle b w h x0 y0 W H" and W: "3 \<le> W" and H: "3 \<le> H"
  shows "\<exists>vis'. traceLoop b w h (int x0 + 1, int y0 + 1, 0, 0, vis, [])
           = (vis', [(int x0 + 1, int y0 + 1), (int x0 + 2, int y0 + 1),
                     (int x0 + 2, int y0), (int x0 + 1, int y0)], 3)"
proof -
  from R W H have wh: "3 \<le> w" "3 \<le> h" by (simp_all add: filledRectangle_def)
  then have pos: "0 < w" "0 < h" by simp_all
  from wh have "3 * 3 \<le> w * h" by (rule mult_le_mono)
  then have lt: "0 < w * h" "1 < w * h" "2 < w * h" "3 < w * h" by linarith+
  have t1: "tryDirections b w h (int x0 + 1) (int y0 + 1) 0 4 = (True, int x0 + 2, int y0 + 1, 0)"
    using W H unfolding four_Suc
    by (simp add: Let_def rect_isForeground [OF R] dirDx_def dirDy_def)
  have t2: "tryDirections b w h (int x0 + 2) (int y0 + 1) 3 4 = (True, int x0 + 2, int y0, 3)"
    using W H unfolding four_Suc
    by (simp add: Let_def rect_isForeground [OF R] dirDx_def dirDy_def)
  have t3: "tryDirections b w h (int x0 + 2) (int y0) 2 4 = (True, int x0 + 1, int y0, 2)"
    using W H unfolding four_Suc
    by (simp add: Let_def rect_isForeground [OF R] dirDx_def dirDy_def)
  have t4: "tryDirections b w h (int x0 + 1) (int y0) 1 4 = (True, int x0 + 1, int y0 + 1, 1)"
    using W H unfolding four_Suc
    by (simp add: Let_def rect_isForeground [OF R] dirDx_def dirDy_def)
  let ?p1 = "(int x0 + 1, int y0 + 1)" and ?p2 = "(int x0 + 2, int y0 + 1)"
  let ?p3 = "(int x0 + 2, int y0)" and ?p4 = "(int x0 + 1, int y0)"
  let ?v1 = "vis[nat ((int y0 + 1) * int w + (int x0 + 1)) := 1]"
  let ?v2 = "?v1[nat ((int y0 + 1) * int w + (int x0 + 2)) := 1]"
  let ?v3 = "?v2[nat (int y0 * int w + (int x0 + 2)) := 1]"
  let ?v4 = "?v3[nat (int y0 * int w + (int x0 + 1)) := 1]"
  from t4 have t4': "tryDirections b w h (int x0 + 1) (int y0) (Suc 0) 4 = (True, int x0 + 1, int y0 + 1, 1)"
    by simp
  from lt have lt': "Suc 0 < w * h" "Suc (Suc 0) < w * h" "Suc (Suc (Suc 0)) < w * h"
    by simp_all
  have "traceLoop b w h (int x0 + 1, int y0 + 1, 0, 0, vis, [])
          = traceLoop b w h (int x0 + 2, int y0 + 1, 3, Suc 0, ?v1, [?p1])"
    by (subst traceLoop_unfold) (simp_all add: pos t1)
  also have "\<dots> = traceLoop b w h (int x0 + 2, int y0, 2, Suc (Suc 0), ?v2, [?p1, ?p2])"
    by (subst traceLoop_unfold) (simp_all add: lt' t2)
  also have "\<dots> = traceLoop b w h (int x0 + 1, int y0, 1, Suc (Suc (Suc 0)), ?v3, [?p1, ?p2, ?p3])"
    by (subst traceLoop_unfold) (simp_all add: lt' t3)
  also have "\<dots> = (?v4, [?p1, ?p2, ?p3, ?p4], 3)"
    by (subst traceLoop_unfold) (simp_all add: lt' t4' numeral_3_eq_3)
  finally show ?thesis by blast
qed

lemma scanOrder_split2:
  assumes "Suc x0 < w" "Suc y0 < h"
  shows "scanOrder w h
           = (concat (map (\<lambda>y. map (\<lambda>x. (x, y)) [0..<w]) [0..<y0]) @ map (\<lambda>x. (x, y0)) [0..<x0])
             @ (x0, y0)
             # (map (\<lambda>x. (x, y0)) [Suc x0..<w] @ map (\<lambda>x. (x, Suc y0)) [0..<Suc x0])
             @ (Suc x0, Suc y0)
             # (map (\<lambda>x. (x, Suc y0)) [Suc (Suc x0)..<w]
                @ concat (map (\<lambda>y. map (\<lambda>x. (x, y)) [0..<w]) [Suc (Suc y0)..<h]))"
proof -
  from assms have "x0 < w" "y0 < h" by simp_all
  note scanOrder_split [OF this]
  moreover from assms(2) have "[Suc y0..<h] = Suc y0 # [Suc (Suc y0)..<h]"
    by (rule upt_conv_Cons)
  moreover have "map (\<lambda>x. (x, Suc y0)) [0..<w]
      = map (\<lambda>x. (x, Suc y0)) [0..<Suc x0] @ (Suc x0, Suc y0) # map (\<lambda>x. (x, Suc y0)) [Suc (Suc x0)..<w]"
    using upt_split [OF assms(1)] by (metis list.simps(9) map_append)
  ultimately show ?thesis by simp
qed

text \<open>
  For every filled rectangle with \<open>W \<ge> 3\<close> and \<open>H \<ge> 3\<close> the output starts with the boundary
  and a second contour of four points; it has at least two contours.
\<close>

lemma thick_rectangle_more_contours:
  assumes R: "filledRectangle bitmap width height x0 y0 W H" and W: "3 \<le> W" and H: "3 \<le> H"
  shows "\<exists>more. findContours bitmap width height
           = rectanglePerimeter x0 y0 W H
             # [(int x0 + 1, int y0 + 1), (int x0 + 2, int y0 + 1),
                (int x0 + 2, int y0), (int x0 + 1, int y0)]
             # more"
proof -
  let ?P = "rectanglePerimeter x0 y0 W H"
  let ?Q = "[(int x0 + 1, int y0 + 1), (int x0 + 2, int y0 + 1), (int x0 + 2, int y0), (int x0 + 1, int y0)]"
  let ?zeros = "replicate (length bitmap) (0 :: nat)"
  let ?vis = "markVisited width ?P ?zeros"
  define before where
    "before = concat (map (\<lambda>y. map (\<lambda>x. (x, y)) [0..<width]) [0..<y0]) @ map (\<lambda>x. (x, y0)) [0..<x0]"
  define between where
    "between = map (\<lambda>x. (x, y0)) [Suc x0..<width] @ map (\<lambda>x. (x, Suc y0)) [0..<Suc x0]"
  define after where
    "after = map (\<lambda>x. (x, Suc y0)) [Suc (Suc x0)..<width]
               @ concat (map (\<lambda>y. map (\<lambda>x. (x, y)) [0..<width]) [Suc (Suc y0)..<height])"
  from W H have W2: "2 \<le> W" and H2: "2 \<le> H" by simp_all
  from R W H have in_grid: "Suc x0 < width" "Suc y0 < height" "x0 < width" "y0 < height"
    and len: "length bitmap = width * height"
    by (simp_all add: filledRectangle_def)
  have order: "scanOrder width height = before @ (x0, y0) # between @ (Suc x0, Suc y0) # after"
    unfolding before_def between_def after_def using in_grid(1,2) by (rule scanOrder_split2)
  have pre: "fold (scanStep bitmap width height) before ([], ?zeros) = ([], ?zeros)"
  proof (rule fold_scanStep_skip, rule ballI)
    fix p assume "p \<in> set before"
    then have "fst p < width" and "snd p < height" and "snd p < y0 \<or> fst p < x0"
      using in_grid by (auto simp: before_def)
    with rect_rd [OF R, of "fst p" "snd p"]
    show "\<not> (rd bitmap (snd p * width + fst p) = Some 1 \<and> rd ?zeros (snd p * width + fst p) = Some 0)"
      by auto
  qed
  have seed: "scanStep bitmap width height (x0, y0) ([], ?zeros) = ([?P], ?vis)"
  proof -
    from rect_rd [OF R in_grid(3,4)] W H have "rd bitmap (y0 * width + x0) = Some 1" by simp
    moreover from in_grid(3,4) have "y0 * width + x0 < width * height" by (rule cell_index_less)
    then have "rd ?zeros (y0 * width + x0) = Some 0" by (simp add: rd_def len)
    moreover from W H have "2 < length ?P" by (simp add: length_rectanglePerimeter)
    ultimately show ?thesis
      by (simp add: scanStep_def trace_rectangle [OF R W2 H2])
  qed
  have mid: "fold (scanStep bitmap width height) between ([?P], ?vis) = ([?P], ?vis)"
  proof (rule fold_scanStep_skip, rule ballI)
    fix p assume "p \<in> set between"
    then have p: "fst p < width" "snd p < height"
      and edge: "snd p = y0 \<or> fst p \<le> x0"
      using in_grid by (auto simp: between_def)
    show "\<not> (rd bitmap (snd p * width + fst p) = Some 1 \<and> rd ?vis (snd p * width + fst p) = Some 0)"
    proof (cases "x0 \<le> fst p \<and> fst p < x0 + W \<and> y0 \<le> snd p \<and> snd p < y0 + H")
      case False
      with rect_rd [OF R p] show ?thesis by simp
    next
      case True
      with edge have "fst p = x0 \<or> fst p = x0 + W - 1 \<or> snd p = y0 \<or> snd p = y0 + H - 1"
        by auto
      with True have "(int (fst p), int (snd p)) \<in> set ?P"
        by (intro boundary_on_perimeter [OF W2 H2]) simp_all
      moreover have idx: "nat (int (snd p) * int width + int (fst p)) = snd p * width + fst p"
        by (simp add: nat_add_distrib nat_mult_distrib)
      moreover from p have lt: "snd p * width + fst p < width * height" by (rule cell_index_less)
      ultimately have "?vis ! (snd p * width + fst p) = 1"
        using markVisited_nth [of "(int (fst p), int (snd p))" ?P width ?zeros] len by simp
      with lt have "rd ?vis (snd p * width + fst p) = Some 1"
        by (simp add: rd_def length_markVisited len)
      then show ?thesis by simp
    qed
  qed
  obtain vis' where trace: "traceLoop bitmap width height (int x0 + 1, int y0 + 1, 0, 0, ?vis, [])
      = (vis', ?Q, 3)"
    using trace_interior [OF R W H, of ?vis] by blast
  have seed2: "scanStep bitmap width height (Suc x0, Suc y0) ([?P], ?vis) = ([?P, ?Q], vis')"
  proof -
    from in_grid(1,2) have lt: "Suc y0 * width + Suc x0 < width * height" by (rule cell_index_less)
    from rect_rd [OF R in_grid(1,2)] W H have "rd bitmap (Suc y0 * width + Suc x0) = Some 1" by simp
    moreover from interior_not_marked [OF R W H, of ?zeros] lt
    have "rd ?vis (Suc y0 * width + Suc x0) = Some 0"
      by (simp add: rd_def length_markVisited len)
    moreover have "int (Suc x0) = int x0 + 1" "int (Suc y0) = int y0 + 1" by simp_all
    ultimately show ?thesis
      by (simp only: scanStep_def Let_def fst_conv snd_conv trace) simp
  qed
  obtain more where more: "fst (fold (scanStep bitmap width height) after ([?P, ?Q], vis'))
      = fst ([?P, ?Q], vis') @ more"
    using fold_scanStep_prefix [of bitmap width height after "([?P, ?Q], vis')"] by blast
  have "fold (scanStep bitmap width height) (before @ (x0, y0) # between @ (Suc x0, Suc y0) # after)
            ([], ?zeros)
          = fold (scanStep bitmap width height) after
              (scanStep bitmap width height (Suc x0, Suc y0)
                 (fold (scanStep bitmap width height) between
                    (scanStep bitmap width height (x0, y0)
                       (fold (scanStep bitmap width height) before ([], ?zeros)))))"
    by simp
  also have "\<dots> = fold (scanStep bitmap width height) after ([?P, ?Q], vis')"
    by (simp only: pre seed mid seed2)
  finally have "findContours bitmap width height = [?P, ?Q] @ more"
    using more by (simp add: findContours_scanOrder order)
  then show ?thesis by simp
qed

section \<open>Properties of the path output\<close>

lemma fold_snoc_map: "fold (\<lambda>i acc. acc @ [f i]) js acc = acc @ map f js"
  by (induction js arbitrary: acc) simp_all

lemma map_nth_tl: "map (\<lambda>i. f (xs ! i)) [Suc 0..<length xs] = map f (tl xs)"
  by (rule nth_equalityI) (simp_all add: nth_tl)

text \<open>
  Claim C6. For a non-empty contour and smoothing \<open>0\<close> the path is a move-to the first
  point, a line-to for each further point in order, and the closing command; no command
  of the path is a quadratic or cubic curve.
\<close>

theorem contourToSvgPath_no_smoothing:
  "contour \<noteq> [] \<Longrightarrow>
     contourToSvgPath contour 0
       = MoveTo (real_of_int (fst (contour ! 0))) (real_of_int (snd (contour ! 0)))
         # map (\<lambda>p. LineTo (real_of_int (fst p)) (real_of_int (snd p))) (tl contour)
         @ [ClosePath] \<and>
     (\<forall>cmd \<in> set (contourToSvgPath contour 0). \<not> isCurve cmd)"
proof -
  assume ne: "contour \<noteq> []"
  have eq: "contourToSvgPath contour 0
       = MoveTo (real_of_int (fst (contour ! 0))) (real_of_int (snd (contour ! 0)))
         # map (\<lambda>p. LineTo (real_of_int (fst p)) (real_of_int (snd p))) (tl contour)
         @ [ClosePath]"
    using ne
    by (simp add: contourToSvgPath_def fold_snoc_map
        map_nth_tl [of "\<lambda>p. LineTo (real_of_int (fst p)) (real_of_int (snd p))" contour])
  have "\<forall>cmd \<in> set (contourToSvgPath contour 0). \<not> isCurve cmd"
    unfolding eq by auto
  with eq show ?thesis by simp
qed

theorem contourToSvgPath_no_smoothing_witness:
  "[(0, 0), (1, 0), (1, 1)] \<noteq> ([] :: point list) \<and>
   contourToSvgPath [(0, 0), (1, 0), (1, 1)] 0
     = [MoveTo 0 0, LineTo 1 0, LineTo 1 1, ClosePath] \<and>
   filter isCurve (contourToSvgPath [(0, 0), (1, 0), (1, 1)] 0) = []"
  using contourToSvgPath_no_smoothing [of "[(0, 0), (1, 0), (1, 1)]"] by simp


section \<open>Properties of the circular layout\<close>

lemma length_calculateFramePositions:
  "length (calculateFramePositions count diameter bearingDiameter spacing) = count"
  by (simp add: calculateFramePositions_def Let_def fold_snoc_map)

lemma calculateFramePositions_nth:
  "i < count \<Longrightarrow>
     calculateFramePositions count diameter bearingDiameter spacing ! i
       = \<lparr>pos_x = cos (real i * ((2 * pi) / real count)) * ((diameter - bearingDiameter) / 2 - spacing),
          pos_y = sin (real i * ((2 * pi) / real count)) * ((diameter - bearingDiameter) / 2 - spacing),
          pos_angle = real i * ((2 * pi) / real count) * (180 / pi),
          pos_scale = 2 * ((diameter - bearingDiameter) / 2 - spacing) * sin (pi / real count) / 50\<rparr>"
  by (simp add: calculateFramePositions_def Let_def fold_snoc_map)

text \<open>
  Claim C5. With an empty frame list \<open>generateSpinner\<close> rejects with the error
  \<open>No frames available\<close>, for every options object, before any progress is reported and
  without building a design.
\<close>

theorem generateSpinner_empty_frames:
  "generateSpinner [] options = ([], Inl (Error ''No frames available''))"
  by (simp add: generateSpinner_def)

text \<open>
  Claim C3, as stated, fails: with diameter \<open>20\<close>, bearing diameter \<open>22\<close> and spacing \<open>5\<close>
  the placement radius is \<open>-6\<close>, and the layout still resolves with a design.
\<close>

theorem layout_radius_counterexample:
  "placementRadius \<lparr>so_diameter = Some 20, so_frameCount = Some 3, so_spacing = Some 5,
         so_bearingDiameter = Some 22\<rparr> \<le> 0 \<and> (22 :: real) \<ge> 20 - 2 * 5 \<and>
   \<not> isl (snd (generateSpinner [''frame'']
        \<lparr>so_diameter = Some 20, so_frameCount = Some 3, so_spacing = Some 5,
         so_bearingDiameter = Some 22\<rparr>))"
  by (simp add: generateSpinner_def generateSpinnerSvg_def withDefault_def placementRadius_def Let_def)

text \<open>
  Claim C3, amended. For every non-empty frame list and every options object, whatever
  the sign of the placement radius \<open>(diameter - bearingDiameter) / 2 - spacing\<close>, the layout
  resolves with a design that places \<open>frameCount\<close> frames, frame \<open>i\<close> being source frame
  \<open>i mod length svgFrames\<close> at \<open>(cos (i * angleStep) * radius, sin (i * angleStep) * radius)\<close>.
\<close>

theorem layout_no_radius_check:
  "svgFrames \<noteq> [] \<Longrightarrow>
     \<exists>design. snd (generateSpinner svgFrames options) = Inr design \<and>
       length (sd_frames design) = withDefault (so_frameCount options) 8 \<and>
       (\<forall>i < withDefault (so_frameCount options) 8.
          fst (sd_frames design ! i) = svgFrames ! (i mod length svgFrames) \<and>
          pos_x (snd (sd_frames design ! i))
            = cos (real i * ((2 * pi) / real (withDefault (so_frameCount options) 8)))
              * placementRadius options \<and>
          pos_y (snd (sd_frames design ! i))
            = sin (real i * ((2 * pi) / real (withDefault (so_frameCount options) 8)))
              * placementRadius options)"
  by (simp add: generateSpinner_def generateSpinnerSvg_def Let_def fold_snoc_map
      placementRadius_def calculateFramePositions_nth length_calculateFramePositions)

theorem layout_no_radius_check_witness:
  "[''frame''] \<noteq> [] \<and> placementRadius \<lparr>so_diameter = Some 20, so_frameCount = Some 3,
       so_spacing = Some 5, so_bearingDiameter = Some 22\<rparr> = - 6 \<and>
   (\<exists>design. snd (generateSpinner [''frame'']
        \<lparr>so_diameter = Some 20, so_frameCount = Some 3, so_spacing = Some 5,
         so_bearingDiameter = Some 22\<rparr>) = Inr design \<and>
      length (sd_frames design) = 3 \<and>
      pos_x (snd (sd_frames design ! 0)) = - 6 \<and> pos_y (snd (sd_frames design ! 0)) = 0)"
  using layout_no_radius_check [of "[''frame'']" "\<lparr>so_diameter = Some 20, so_frameCount = Some 3,
       so_spacing = Some 5, so_bearingDiameter = Some 22\<rparr>"]
  by (auto simp: withDefault_def placementRadius_def)

end
